theory Spec2Isabelle
  imports Main "HOL-Library.AList"
begin

section \<open>Python strings\<close>

text \<open>
  The resolver of \<^verbatim>\<open>database_tools.py\<close> is the function \<^verbatim>\<open>order_sql_commands\<close>.
  It works on Python strings with \<^verbatim>\<open>str.upper\<close>, \<^verbatim>\<open>str.split\<close>, \<^verbatim>\<open>str.strip\<close>,
  \<^verbatim>\<open>str.replace\<close>, \<^verbatim>\<open>str.join\<close> and two regular expressions.

  A Python \<^verbatim>\<open>str\<close> is a sequence of Unicode code points. The code point U+PPHHLL is
  written \<open>Codepoint PP HH LL\<close>, with its three bytes; \<open>latin1 c\<close> is U+00LL, \<open>bmp h l\<close> is
  U+HHLL, and \<open>str\<close> turns a literal of ASCII characters into a Python string.
\<close>

datatype codepoint = Codepoint char char char

type_synonym pystr = "codepoint list"

definition latin1 :: "char \<Rightarrow> codepoint" where
  "latin1 l = Codepoint (CHR 0x00) (CHR 0x00) l"

definition bmp :: "char \<Rightarrow> char \<Rightarrow> codepoint" where
  "bmp h l = Codepoint (CHR 0x00) h l"

definition str :: "string \<Rightarrow> pystr" where
  "str s = map latin1 s"

subsection \<open>Character classes\<close>

text \<open>
  \<^verbatim>\<open>str.isspace\<close>, which is also what \<^verbatim>\<open>str.strip\<close> removes and what \<^verbatim>\<open>\s\<close> matches in
  a pattern for \<^verbatim>\<open>str\<close>, holds of U+0009 to U+000D, U+001C to U+0020, U+0085, U+00A0,
  U+1680, U+2000 to U+200A, U+2028, U+2029, U+202F, U+205F and U+3000.
\<close>

definition space_00 :: "char \<Rightarrow> bool" where
  \<comment> \<open>the low bytes of the white space in U+0000 to U+00FF\<close>
  "space_00 l = (let n = (of_char l :: nat) in
     (9 \<le> n \<and> n \<le> 13) \<or> (28 \<le> n \<and> n \<le> 32) \<or> n = 133 \<or> n = 160)"

definition space_20 :: "char \<Rightarrow> bool" where
  \<comment> \<open>the low bytes of the white space in U+2000 to U+20FF\<close>
  "space_20 l = (let n = (of_char l :: nat) in
     n \<le> 10 \<or> n = 40 \<or> n = 41 \<or> n = 47 \<or> n = 95)"

fun isspace :: "codepoint \<Rightarrow> bool" where
  "isspace (Codepoint p h l) =
     (p = CHR 0x00 \<and>
      (h = CHR 0x00 \<and> space_00 l \<or>
       h = CHR 0x16 \<and> l = CHR 0x80 \<or>
       h = CHR 0x20 \<and> space_20 l \<or>
       h = CHR 0x30 \<and> l = CHR 0x00))"

text \<open>
  \<^verbatim>\<open>\w\<close> matches the underscore and the code points of which \<^verbatim>\<open>str.isalnum\<close> holds. Up to
  U+007F these are the digits and the letters. Above U+007F they are given by the Unicode
  database of the interpreter (133485 code points in Python 3.11, none of them white
  space), which is not part of the repository: that table is the parameter \<open>alnum\<close> of
  the model, and the theorems hold for every table. \<open>latin1_alnum\<close> is the table up to
  U+00FF; the model is evaluated with it on inputs that have no code point above U+00FF,
  where it agrees with the table of the interpreter.
\<close>

definition is_ascii :: "char \<Rightarrow> bool" where
  "is_ascii l = ((of_char l :: nat) < 128)"

definition word_ascii :: "char \<Rightarrow> bool" where
  \<comment> \<open>digits, letters and the underscore\<close>
  "word_ascii l = (let n = (of_char l :: nat) in
     (48 \<le> n \<and> n \<le> 57) \<or> (65 \<le> n \<and> n \<le> 90) \<or> n = 95 \<or> (97 \<le> n \<and> n \<le> 122))"

fun isword :: "(codepoint \<Rightarrow> bool) \<Rightarrow> codepoint \<Rightarrow> bool" where
  "isword alnum (Codepoint p h l) =
     (if p = CHR 0x00 \<and> h = CHR 0x00 \<and> is_ascii l then word_ascii l
      else alnum (Codepoint p h l))"

definition alnum_00 :: "char \<Rightarrow> bool" where
  \<comment> \<open>the low bytes of the alphanumeric code points in U+0080 to U+00FF\<close>
  "alnum_00 l = (let n = (of_char l :: nat) in
     n = 170 \<or> n = 178 \<or> n = 179 \<or> n = 181 \<or> n = 185 \<or> n = 186 \<or> (188 \<le> n \<and> n \<le> 190) \<or>
     (192 \<le> n \<and> n \<le> 214) \<or> (216 \<le> n \<and> n \<le> 246) \<or> 248 \<le> n)"

fun latin1_alnum :: "codepoint \<Rightarrow> bool" where
  "latin1_alnum (Codepoint p h l) = (p = CHR 0x00 \<and> h = CHR 0x00 \<and> alnum_00 l)"

text \<open>
  Letter case. \<^verbatim>\<open>str.upper\<close> is used once, to test whether the upper-cased input holds
  \<^verbatim>\<open>CREATE TABLE\<close>. Up to U+007F it maps the small letters to the capital letters. Above
  U+007F only six code points yield a letter of \<^verbatim>\<open>CREATE TABLE\<close> at all (U+1E97 gives T
  U+0308, U+1E9A gives A U+02BE, U+FB02 gives FL, U+FB04 gives FFL, U+FB05 and U+FB06 give
  ST), each next to a character that \<^verbatim>\<open>CREATE TABLE\<close> does not have at that place, so
  none can be part of an occurrence: for the test it is as if the code points above
  U+007F were left as they are, and \<open>upper\<close> leaves them so.

  Under \<^verbatim>\<open>re.IGNORECASE\<close> a letter of the two literals \<^verbatim>\<open>CREATE TABLE\<close> and
  \<^verbatim>\<open>REFERENCES\<close> matches its capital and its small form, and S also matches U+017F (the
  long s); the space matches itself.
\<close>

definition upper_char :: "char \<Rightarrow> char" where
  "upper_char c = (let n = (of_char c :: nat) in if 97 \<le> n \<and> n \<le> 122 then char_of (n - 32) else c)"

definition lower_char :: "char \<Rightarrow> char" where
  "lower_char c = (let n = (of_char c :: nat) in if 65 \<le> n \<and> n \<le> 90 then char_of (n + 32) else c)"

fun upper_cp :: "codepoint \<Rightarrow> codepoint" where
  "upper_cp (Codepoint p h l) =
     (if p = CHR 0x00 \<and> h = CHR 0x00 then Codepoint p h (upper_char l) else Codepoint p h l)"

definition upper :: "pystr \<Rightarrow> pystr" where
  "upper s = map upper_cp s"

fun ignorecase_eq :: "char \<Rightarrow> codepoint \<Rightarrow> bool" where
  \<comment> \<open>the letter \<open>a\<close> of a literal matches the code point\<close>
  "ignorecase_eq a (Codepoint p h l) =
     (p = CHR 0x00 \<and>
      (h = CHR 0x00 \<and> lower_char l = lower_char a \<or>
       h = CHR 0x01 \<and> l = CHR 0x7F \<and> lower_char a = CHR ''s''))"

text \<open>The classes read off the bits of a byte, as code equations.\<close>

lemma space_00_Char [code]:
  "space_00 (Char b0 b1 b2 b3 b4 b5 b6 b7) =
     ((\<not> b7 \<and> \<not> b6 \<and>
       ((\<not> b5 \<and> \<not> b4 \<and> b3 \<and> \<not> (b2 \<and> b1) \<and> (b2 \<or> b1 \<or> b0)) \<or>
        (\<not> b5 \<and> b4 \<and> b3 \<and> b2) \<or>
        (b5 \<and> \<not> b4 \<and> \<not> b3 \<and> \<not> b2 \<and> \<not> b1 \<and> \<not> b0))) \<or>
      (b7 \<and> \<not> b6 \<and> \<not> b4 \<and> \<not> b1 \<and>
       ((\<not> b5 \<and> \<not> b3 \<and> b2 \<and> b0) \<or> (b5 \<and> \<not> b3 \<and> \<not> b2 \<and> \<not> b0))))"
  by (cases b0; cases b1; cases b2; cases b3; cases b4; cases b5; cases b6; cases b7)
     (simp_all add: space_00_def)

lemma space_20_Char [code]:
  "space_20 (Char b0 b1 b2 b3 b4 b5 b6 b7) =
     (\<not> b7 \<and>
      ((\<not> b6 \<and> \<not> b5 \<and> \<not> b4 \<and> \<not> (b3 \<and> (b2 \<or> (b1 \<and> b0)))) \<or>
       (\<not> b6 \<and> b5 \<and> \<not> b4 \<and> b3 \<and> ((\<not> b2 \<and> \<not> b1) \<or> (b2 \<and> b1 \<and> b0))) \<or>
       (b6 \<and> \<not> b5 \<and> b4 \<and> b3 \<and> b2 \<and> b1 \<and> b0)))"
  by (cases b0; cases b1; cases b2; cases b3; cases b4; cases b5; cases b6; cases b7)
     (simp_all add: space_20_def)

lemma is_ascii_Char [code]: "is_ascii (Char b0 b1 b2 b3 b4 b5 b6 b7) = (\<not> b7)"
  by (cases b0; cases b1; cases b2; cases b3; cases b4; cases b5; cases b6; cases b7)
     (simp_all add: is_ascii_def)

lemma word_ascii_Char [code]:
  "word_ascii (Char b0 b1 b2 b3 b4 b5 b6 b7) =
     (\<not> b7 \<and>
      ((\<not> b6 \<and> b5 \<and> b4 \<and> \<not> (b3 \<and> (b2 \<or> b1))) \<or>
       (b6 \<and> (b4 \<or> b3 \<or> b2 \<or> b1 \<or> b0) \<and> \<not> (b4 \<and> b3 \<and> (b2 \<or> (b1 \<and> b0)))) \<or>
       (b6 \<and> \<not> b5 \<and> b4 \<and> b3 \<and> b2 \<and> b1 \<and> b0)))"
  by (cases b0; cases b1; cases b2; cases b3; cases b4; cases b5; cases b6; cases b7)
     (simp_all add: word_ascii_def)

lemma alnum_00_Char [code]:
  "alnum_00 (Char b0 b1 b2 b3 b4 b5 b6 b7) =
     (b7 \<and>
      ((\<not> b6 \<and> b5 \<and> \<not> b4 \<and> b3 \<and> \<not> b2 \<and> b1 \<and> \<not> b0) \<or>
       (\<not> b6 \<and> b5 \<and> b4 \<and> \<not> b3 \<and> \<not> b2 \<and> b1) \<or>
       (\<not> b6 \<and> b5 \<and> b4 \<and> \<not> b3 \<and> b2 \<and> \<not> b1 \<and> b0) \<or>
       (\<not> b6 \<and> b5 \<and> b4 \<and> b3 \<and> \<not> b2 \<and> (b1 \<or> b0) \<and> \<not> (b1 \<and> b0)) \<or>
       (\<not> b6 \<and> b5 \<and> b4 \<and> b3 \<and> b2 \<and> \<not> (b1 \<and> b0)) \<or>
       (b6 \<and> \<not> (b4 \<and> \<not> b3 \<and> b2 \<and> b1 \<and> b0))))"
  by (cases b0; cases b1; cases b2; cases b3; cases b4; cases b5; cases b6; cases b7)
     (simp_all add: alnum_00_def)

lemma lower_char_Char [code]:
  "lower_char (Char b0 b1 b2 b3 b4 b5 b6 b7) =
     (if \<not> b7 \<and> b6 \<and> \<not> b5 \<and> (b4 \<or> b3 \<or> b2 \<or> b1 \<or> b0) \<and>
         \<not> (b4 \<and> b3 \<and> (b2 \<or> (b1 \<and> b0)))
      then Char b0 b1 b2 b3 b4 True b6 b7 else Char b0 b1 b2 b3 b4 b5 b6 b7)"
  by (cases b0; cases b1; cases b2; cases b3; cases b4; cases b5; cases b6; cases b7)
     (simp_all add: lower_char_def char_of_eq_iff)

lemma upper_char_Char [code]:
  "upper_char (Char b0 b1 b2 b3 b4 b5 b6 b7) =
     (if \<not> b7 \<and> b6 \<and> b5 \<and> (b4 \<or> b3 \<or> b2 \<or> b1 \<or> b0) \<and>
         \<not> (b4 \<and> b3 \<and> (b2 \<or> (b1 \<and> b0)))
      then Char b0 b1 b2 b3 b4 False b6 b7 else Char b0 b1 b2 b3 b4 b5 b6 b7)"
  by (cases b0; cases b1; cases b2; cases b3; cases b4; cases b5; cases b6; cases b7)
     (simp_all add: upper_char_def char_of_eq_iff)

subsection \<open>String methods\<close>

fun startswith :: "pystr \<Rightarrow> pystr \<Rightarrow> bool" where
  "startswith [] s = True"
| "startswith (p # ps) [] = False"
| "startswith (p # ps) (c # cs) = (p = c \<and> startswith ps cs)"

fun contains :: "pystr \<Rightarrow> pystr \<Rightarrow> bool" where
  \<comment> \<open>\<^verbatim>\<open>pat in s\<close>\<close>
  "contains pat [] = (pat = [])"
| "contains pat (c # cs) = (startswith pat (c # cs) \<or> contains pat cs)"

fun split_on :: "codepoint \<Rightarrow> pystr \<Rightarrow> pystr list" where
  \<comment> \<open>\<^verbatim>\<open>s.split(sep)\<close> for a separator of one character: never the empty list.\<close>
  "split_on sep [] = [[]]"
| "split_on sep (c # cs) =
     (if c = sep then [] # split_on sep cs
      else (case split_on sep cs of
              [] \<Rightarrow> [[c]]
            | w # ws \<Rightarrow> (c # w) # ws))"

definition strip :: "pystr \<Rightarrow> pystr" where
  \<comment> \<open>\<^verbatim>\<open>s.strip()\<close>: white space removed at both ends.\<close>
  "strip s = rev (dropWhile isspace (rev (dropWhile isspace s)))"

fun join :: "pystr \<Rightarrow> pystr list \<Rightarrow> pystr" where
  \<comment> \<open>\<^verbatim>\<open>sep.join(parts)\<close>\<close>
  "join sep [] = []"
| "join sep [p] = p"
| "join sep (p # q # ps) = p @ sep @ join sep (q # ps)"

definition semicolon :: codepoint where
  "semicolon = latin1 (CHR '';'')"

definition line_feed :: codepoint where
  "line_feed = latin1 (CHR 0x0A)"

definition replace_semicolons :: "pystr \<Rightarrow> pystr" where
  \<comment> \<open>\<^verbatim>\<open>s.replace(';', ';\n\n')\<close>\<close>
  "replace_semicolons s =
     concat (map (\<lambda>c. if c = semicolon then [semicolon, line_feed, line_feed] else [c]) s)"

section \<open>The two regular expressions\<close>

text \<open>
  Both patterns are compiled with \<^verbatim>\<open>re.IGNORECASE\<close>. Every quantifier of the two patterns
  is greedy, and in both the character that follows a quantified class is never of that
  class (white space is followed by a quote or a word character, a word by a quote, white
  space or a parenthesis, and no white space or quote is a word character), so giving
  characters back never turns a failure into a match: the matchers below take the longest
  run at each quantifier and are what the backtracking engine computes.
\<close>

fun match_literal :: "string \<Rightarrow> pystr \<Rightarrow> pystr option" where
  \<comment> \<open>the literal \<open>p\<close> at the start of the text, letter case ignored; the rest of the text.\<close>
  "match_literal [] s = Some s"
| "match_literal (a # as) [] = None"
| "match_literal (a # as) (c # cs) =
     (if ignorecase_eq a c then match_literal as cs else None)"

definition skip_quote :: "pystr \<Rightarrow> pystr" where
  \<comment> \<open>the optional quote: a double quote or a backtick.\<close>
  "skip_quote s =
     (case s of [] \<Rightarrow> [] | c # cs \<Rightarrow> if c = latin1 (CHR 0x22) \<or> c = latin1 (CHR 0x60) then cs else s)"

definition match_name :: "(codepoint \<Rightarrow> bool) \<Rightarrow> pystr \<Rightarrow> (pystr \<times> pystr) option" where
  \<comment> \<open>the part \<^verbatim>\<open>\s+["`]?(\w+)["`]?\<close> common to both patterns: some white space and an
      optionally quoted word; group 1 and the text after it.\<close>
  "match_name alnum s =
     (if takeWhile isspace s = [] then None
      else let s' = skip_quote (dropWhile isspace s);
               name = takeWhile (isword alnum) s'
           in if name = [] then None
              else Some (name, skip_quote (dropWhile (isword alnum) s')))"

definition match_create_table :: "(codepoint \<Rightarrow> bool) \<Rightarrow> pystr \<Rightarrow> pystr option" where
  \<comment> \<open>the header pattern \<^verbatim>\<open>CREATE TABLE\s+["`]?(\w+)["`]?\s*\(\<close> matched at the start of
      the text: group 1.\<close>
  "match_create_table alnum s =
     (case match_literal ''CREATE TABLE'' s of
        None \<Rightarrow> None
      | Some s1 \<Rightarrow>
          (case match_name alnum s1 of
             None \<Rightarrow> None
           | Some (name, s2) \<Rightarrow>
               (case dropWhile isspace s2 of
                  [] \<Rightarrow> None
                | c # _ \<Rightarrow> if c = latin1 (CHR ''('') then Some name else None)))"

fun search_create_table :: "(codepoint \<Rightarrow> bool) \<Rightarrow> pystr \<Rightarrow> pystr option" where
  \<comment> \<open>\<^verbatim>\<open>re.search\<close>: the match at the leftmost position that has one.\<close>
  "search_create_table alnum [] = match_create_table alnum []"
| "search_create_table alnum (c # cs) =
     (case match_create_table alnum (c # cs) of
        Some name \<Rightarrow> Some name
      | None \<Rightarrow> search_create_table alnum cs)"

definition match_paren_or_space :: "pystr \<Rightarrow> pystr option" where
  \<comment> \<open>the end \<^verbatim>\<open>\s*(?:\(|\s)\<close> of the foreign-key pattern: white space and an opening
      parenthesis, or else at least one white space; the text after it.\<close>
  "match_paren_or_space s =
     (case dropWhile isspace s of
        [] \<Rightarrow> if takeWhile isspace s = [] then None else Some []
      | c # rest \<Rightarrow>
          if c = latin1 (CHR ''('') then Some rest
          else if takeWhile isspace s = [] then None
          else Some (c # rest))"

definition match_references :: "(codepoint \<Rightarrow> bool) \<Rightarrow> pystr \<Rightarrow> (pystr \<times> pystr) option" where
  \<comment> \<open>the foreign-key pattern \<^verbatim>\<open>REFERENCES\s+["`]?(\w+)["`]?\s*(?:\(|\s)\<close> matched at the
      start of the text: group 1 and the text after the match.\<close>
  "match_references alnum s =
     (case match_literal ''REFERENCES'' s of
        None \<Rightarrow> None
      | Some s1 \<Rightarrow>
          (case match_name alnum s1 of
             None \<Rightarrow> None
           | Some (name, s2) \<Rightarrow>
               (case match_paren_or_space s2 of
                  None \<Rightarrow> None
                | Some rest \<Rightarrow> Some (name, rest))))"

lemma match_literal_length: "match_literal p s = Some r \<Longrightarrow> length r \<le> length s"
  by (induction p s rule: match_literal.induct) (auto split: if_splits intro: le_SucI)

lemma match_literal_shorter:
  "p \<noteq> [] \<Longrightarrow> match_literal p s = Some r \<Longrightarrow> length r < length s"
  by (cases p; cases s) (auto split: if_splits dest: match_literal_length)

lemma skip_quote_length: "length (skip_quote s) \<le> length s"
  by (auto simp: skip_quote_def split: list.splits)

lemma match_name_length:
  assumes "match_name alnum s = Some (name, r)"
  shows "length r \<le> length s"
proof -
  have "r = skip_quote (dropWhile (isword alnum) (skip_quote (dropWhile isspace s)))"
    using assms by (simp add: match_name_def Let_def split: if_splits)
  then show ?thesis
    by (metis skip_quote_length length_dropWhile_le le_trans)
qed

lemma match_paren_or_space_length:
  assumes "match_paren_or_space s = Some r"
  shows "length r \<le> length s"
proof (cases "dropWhile isspace s")
  case Nil
  with assms show ?thesis
    by (simp add: match_paren_or_space_def split: if_splits)
next
  case (Cons c rest)
  have "length (c # rest) \<le> length s"
    using length_dropWhile_le [of isspace s] by (simp only: Cons)
  with assms Cons show ?thesis
    by (auto simp: match_paren_or_space_def length_dropWhile_le split: if_splits)
qed

lemma match_references_shorter:
  assumes "match_references alnum s = Some (name, rest)"
  shows "length rest < length s"
proof -
  from assms obtain s1 s2 where
    s1: "match_literal ''REFERENCES'' s = Some s1" and
    s2: "match_name alnum s1 = Some (name, s2)" and
    r: "match_paren_or_space s2 = Some rest"
    by (auto simp: match_references_def split: option.splits)
  from s1 have "length s1 < length s"
    by (rule match_literal_shorter [rotated]) simp
  with match_name_length [OF s2] match_paren_or_space_length [OF r]
  show ?thesis by linarith
qed

function findall_references :: "(codepoint \<Rightarrow> bool) \<Rightarrow> pystr \<Rightarrow> pystr list" where
  \<comment> \<open>\<^verbatim>\<open>re.findall\<close>: group 1 of the successive matches that do not overlap, left to right.\<close>
  "findall_references alnum [] = []"
| "findall_references alnum (c # cs) =
     (case match_references alnum (c # cs) of
        Some (name, rest) \<Rightarrow> name # findall_references alnum rest
      | None \<Rightarrow> findall_references alnum cs)"
  by pat_completeness auto
termination
  by (relation "measure (\<lambda>(alnum, s). length s)") (auto dest: match_references_shorter)

section \<open>The resolver\<close>

text \<open>
  \<^verbatim>\<open>table_map\<close> and \<^verbatim>\<open>dependencies\<close> are Python dictionaries keyed by table name. They
  are association lists in insertion order, written with \<open>AList.update\<close>, which like
  a Python assignment replaces the value of a key that is present and keeps its position,
  and appends a new key at the end. The value of \<^verbatim>\<open>dependencies\<close> is a Python list: the
  referenced names in the order found, repeated when they are found repeatedly.
\<close>

type_synonym table_map = "(pystr \<times> pystr) list"
type_synonym dependencies = "(pystr \<times> pystr list) list"

text \<open>
  \<^verbatim>\<open>all_tables\<close> is a Python \<^verbatim>\<open>set\<close> of strings. The order in which the interpreter
  iterates a set is not fixed by the language and, with hash randomisation, changes from
  one process to the next. It is a parameter of the model: \<open>iter xs\<close> is the order in
  which the set with the elements \<open>xs\<close> is iterated. \<open>set_order iter\<close> says that
  iterating a set yields each of its elements once.
\<close>

type_synonym set_iteration = "pystr list \<Rightarrow> pystr list"

definition set_order :: "set_iteration \<Rightarrow> bool" where
  "set_order iter = (\<forall>xs. distinct xs \<longrightarrow> distinct (iter xs) \<and> set (iter xs) = set xs)"

datatype error = KeyError

definition statements :: "pystr \<Rightarrow> pystr list" where
  \<comment> \<open>\<^verbatim>\<open>[s.strip() for s in sql_ddl_code.split(';') if s.strip()]\<close>\<close>
  "statements sql_ddl_code =
     map strip (filter (\<lambda>s. strip s \<noteq> []) (split_on semicolon sql_ddl_code))"

fun extract_tables :: "(codepoint \<Rightarrow> bool) \<Rightarrow> pystr list \<Rightarrow> table_map \<times> dependencies \<Rightarrow> table_map \<times> dependencies" where
  \<comment> \<open>the loop over the statements; the list assigned to \<^verbatim>\<open>dependencies[table_name]\<close> and
      then filled by \<^verbatim>\<open>append\<close> is the result of \<^verbatim>\<open>findall\<close>.\<close>
  "extract_tables alnum [] (tm, dp) = (tm, dp)"
| "extract_tables alnum (statement # rest) (tm, dp) =
     (case search_create_table alnum statement of
        None \<Rightarrow> extract_tables alnum rest (tm, dp)
      | Some table_name \<Rightarrow>
          extract_tables alnum rest
            (AList.update table_name (statement @ [semicolon]) tm,
             AList.update table_name (findall_references alnum statement) dp))"

fun ready_to_process :: "pystr list \<Rightarrow> dependencies \<Rightarrow> pystr list \<Rightarrow> error + pystr list" where
  \<comment> \<open>the comprehension that seeds the queue, over the tables in the order given;
      \<^verbatim>\<open>dependencies[t]\<close> raises \<^verbatim>\<open>KeyError\<close> on a missing key.\<close>
  "ready_to_process all_tables dp [] = Inr []"
| "ready_to_process all_tables dp (t # ts) =
     (case map_of dp t of
        None \<Rightarrow> Inl KeyError
      | Some ds \<Rightarrow>
          (case ready_to_process all_tables dp ts of
             Inl e \<Rightarrow> Inl e
           | Inr ready \<Rightarrow>
               Inr (if ds = [] \<or> (\<forall>dep \<in> set ds. dep \<notin> set all_tables)
                    then t # ready else ready)))"

fun scan_dependents ::
  "pystr \<Rightarrow> pystr list \<Rightarrow> dependencies \<times> pystr list \<Rightarrow> dependencies \<times> pystr list" where
  \<comment> \<open>the inner \<^verbatim>\<open>for dependent_table\<close> loop; \<^verbatim>\<open>list.remove\<close> deletes the first
      occurrence only.\<close>
  "scan_dependents current_table [] (dp, ready) = (dp, ready)"
| "scan_dependents current_table (dependent_table # rest) (dp, ready) =
     (case map_of dp dependent_table of
        None \<Rightarrow> scan_dependents current_table rest (dp, ready)
      | Some ds \<Rightarrow>
          if current_table \<in> set ds
          then let ds' = remove1 current_table ds
               in scan_dependents current_table rest
                    (AList.update dependent_table ds' dp,
                     if ds' = [] \<and> dependent_table \<notin> set ready
                     then ready @ [dependent_table] else ready)
          else scan_dependents current_table rest (dp, ready))"

definition deps_size :: "dependencies \<Rightarrow> nat" where
  "deps_size dp = sum_list (map (\<lambda>kv. length (snd kv)) dp)"

lemma deps_size_update:
  "map_of dp k = Some v \<Longrightarrow> deps_size (AList.update k v' dp) + length v = deps_size dp + length v'"
  by (induction dp) (auto simp: deps_size_def)

lemma scan_dependents_measure:
  "scan_dependents c ts (dp, ready) = (dp', ready') \<Longrightarrow>
     2 * deps_size dp' + length ready' \<le> 2 * deps_size dp + length ready"
proof (induction ts arbitrary: dp ready)
  case Nil
  then show ?case by simp
next
  case (Cons t ts)
  show ?case
  proof (cases "map_of dp t")
    case None
    with Cons show ?thesis by simp
  next
    case (Some ds)
    show ?thesis
    proof (cases "c \<in> set ds")
      case False
      with Some Cons show ?thesis by simp
    next
      case True
      define ds' where "ds' = remove1 c ds"
      define dp1 where "dp1 = AList.update t ds' dp"
      define ready1 where "ready1 = (if ds' = [] \<and> t \<notin> set ready then ready @ [t] else ready)"
      from Cons.prems Some True
      have "scan_dependents c ts (dp1, ready1) = (dp', ready')"
        by (simp add: Let_def ds'_def dp1_def ready1_def)
      then have ih: "2 * deps_size dp' + length ready' \<le> 2 * deps_size dp1 + length ready1"
        by (rule Cons.IH)
      from True have "Suc (length ds') = length ds"
        by (simp add: ds'_def length_remove1) (cases ds, auto)
      with deps_size_update [OF Some, of ds'] have "Suc (deps_size dp1) = deps_size dp"
        by (simp add: dp1_def)
      moreover have "length ready1 \<le> Suc (length ready)"
        by (simp add: ready1_def)
      ultimately show ?thesis using ih by linarith
    qed
  qed
qed

function topo_loop ::
  "set_iteration \<Rightarrow> pystr list \<Rightarrow> pystr list \<Rightarrow> dependencies \<Rightarrow> pystr list \<Rightarrow> pystr list" where
  \<comment> \<open>the \<^verbatim>\<open>while ready_to_process\<close> loop; its result is \<^verbatim>\<open>ordered_tables\<close>.\<close>
  "topo_loop iter all_tables ordered dp [] = ordered"
| "topo_loop iter all_tables ordered dp (current_table # ready) =
     (let ordered' = (if current_table \<in> set ordered then ordered else ordered @ [current_table])
      in case scan_dependents current_table
                (iter (filter (\<lambda>t. t \<notin> set ordered') all_tables)) (dp, ready) of
           (dp', ready') \<Rightarrow> topo_loop iter all_tables ordered' dp' ready')"
  by pat_completeness auto
termination
proof (relation "measure (\<lambda>(iter, all_tables, ordered, dp, ready). 2 * deps_size dp + length ready)",
    goal_cases)
  case 1
  show ?case by simp
next
  case (2 iter all_tables ordered dp current_table ready ordered' dp' ready')
  from 2(2) have "scan_dependents current_table
                (iter (filter (\<lambda>t. t \<notin> set ordered') all_tables)) (dp, ready) = (dp', ready')"
    by simp
  from scan_dependents_measure [OF this] show ?case by simp
qed

fun lookup_statements :: "table_map \<Rightarrow> pystr list \<Rightarrow> error + pystr list" where
  \<comment> \<open>\<^verbatim>\<open>table_map[table_name]\<close> for each ordered table; \<^verbatim>\<open>KeyError\<close> on a missing key.\<close>
  "lookup_statements tm [] = Inr []"
| "lookup_statements tm (t # ts) =
     (case map_of tm t of
        None \<Rightarrow> Inl KeyError
      | Some st \<Rightarrow>
          (case lookup_statements tm ts of
             Inl e \<Rightarrow> Inl e
           | Inr sts \<Rightarrow> Inr (st # sts)))"

text \<open>
  The two markers. The source file holds them as the UTF-8 form of mis-decoded emoji; read
  as UTF-8, the literals are the code points U+00F0 U+0178 U+0161 U+00A8 in the warning and
  U+00E2 U+0153 U+2026 in the announcement.
\<close>

definition warning_prefix :: pystr where
  "warning_prefix =
     str ''# '' @
     [latin1 (CHR 0xF0), bmp (CHR 0x01) (CHR 0x78), bmp (CHR 0x01) (CHR 0x61), latin1 (CHR 0xA8)] @
     str '' WARNING: Not all tables could be topologically sorted (possible circular dependencies: ''"

definition warning_suffix :: pystr where
  "warning_suffix = str ''). Using original order.'' @ [line_feed]"

definition announcement :: pystr where
  "announcement =
     str ''# '' @
     [latin1 (CHR 0xE2), bmp (CHR 0x01) (CHR 0x53), bmp (CHR 0x20) (CHR 0x26)] @
     str '' DDL Commands sorted by FOREIGN KEY dependency:''"

definition success_header :: pystr where
  "success_header = announcement @ [line_feed]"

definition assemble :: "pystr list \<Rightarrow> pystr" where
  \<comment> \<open>the header and the statements joined by line feeds, a blank line put after every
      semicolon, and the whole stripped.\<close>
  "assemble parts = strip (replace_semicolons (join [line_feed] (success_header # parts)))"

definition parse_tables :: "(codepoint \<Rightarrow> bool) \<Rightarrow> pystr \<Rightarrow> table_map \<times> dependencies" where
  "parse_tables alnum sql_ddl_code = extract_tables alnum (statements sql_ddl_code) ([], [])"

definition topological_sort :: "set_iteration \<Rightarrow> pystr list \<Rightarrow> dependencies \<Rightarrow> error + pystr list" where
  \<comment> \<open>step 2 of the source: the queue is seeded over the set \<^verbatim>\<open>all_tables\<close>, then the loop runs.\<close>
  "topological_sort iter all_tables dp =
     (case ready_to_process all_tables dp (iter all_tables) of
        Inl e \<Rightarrow> Inl e
      | Inr ready \<Rightarrow> Inr (topo_loop iter all_tables [] dp ready))"

definition order_sql_commands :: "(codepoint \<Rightarrow> bool) \<Rightarrow> set_iteration \<Rightarrow> pystr \<Rightarrow> error + pystr" where
  "order_sql_commands alnum iter sql_ddl_code =
     (if \<not> contains (str ''CREATE TABLE'') (upper sql_ddl_code) then Inr sql_ddl_code
      else case parse_tables alnum sql_ddl_code of
        (tm, dp) \<Rightarrow>
          let all_tables = map fst tm
          in case topological_sort iter all_tables dp of
               Inl e \<Rightarrow> Inl e
             | Inr ordered_tables \<Rightarrow>
                 let missing_tables = iter (filter (\<lambda>t. t \<notin> set ordered_tables) all_tables)
                 in if length ordered_tables \<noteq> length tm \<and> missing_tables \<noteq> []
                    then Inr (warning_prefix @ join (str '', '') missing_tables @ warning_suffix @ sql_ddl_code)
                    else (case lookup_statements tm ordered_tables of
                            Inl e \<Rightarrow> Inl e
                          | Inr parts \<Rightarrow> Inr (assemble parts)))"

text \<open>
  Two observations of a run, for stating properties: the tables in the order in which
  the success path emits them (\<open>None\<close> on the other two paths), and the statement
  stored for a table.
\<close>

definition sorted_tables :: "(codepoint \<Rightarrow> bool) \<Rightarrow> set_iteration \<Rightarrow> pystr \<Rightarrow> pystr list option" where
  "sorted_tables alnum iter sql_ddl_code =
     (if \<not> contains (str ''CREATE TABLE'') (upper sql_ddl_code) then None
      else case parse_tables alnum sql_ddl_code of
        (tm, dp) \<Rightarrow>
          (case topological_sort iter (map fst tm) dp of
             Inl e \<Rightarrow> None
           | Inr ordered_tables \<Rightarrow>
               if length ordered_tables \<noteq> length tm \<and>
                  iter (filter (\<lambda>t. t \<notin> set ordered_tables) (map fst tm)) \<noteq> []
               then None else Some ordered_tables))"

definition statement_of :: "table_map \<Rightarrow> pystr \<Rightarrow> pystr" where
  "statement_of tm t = (case map_of tm t of None \<Rightarrow> [] | Some st \<Rightarrow> st)"

text \<open>
  Notions for the proofs. \<open>in_batch_deps\<close> are the names a table references that are
  keys of the batch; \<open>initially_ready\<close> is the test of the seeding comprehension;
  \<open>deps_first need ordered\<close> says every table of the list comes after the tables it
  needs; \<open>topo_inv\<close> is the invariant of the \<^verbatim>\<open>while\<close> loop, relative to the
  dependencies \<open>dp0\<close> as extracted.
\<close>

definition in_batch_deps :: "pystr list \<Rightarrow> dependencies \<Rightarrow> pystr \<Rightarrow> pystr set" where
  "in_batch_deps all_tables dp t =
     (case map_of dp t of None \<Rightarrow> {} | Some ds \<Rightarrow> set ds \<inter> set all_tables)"

definition initially_ready :: "pystr list \<Rightarrow> dependencies \<Rightarrow> pystr \<Rightarrow> bool" where
  "initially_ready all_tables dp t =
     (case map_of dp t of
        None \<Rightarrow> False
      | Some ds \<Rightarrow> ds = [] \<or> (\<forall>dep \<in> set ds. dep \<notin> set all_tables))"

definition deps_first :: "(pystr \<Rightarrow> pystr set) \<Rightarrow> pystr list \<Rightarrow> bool" where
  "deps_first need ordered = (\<forall>i < length ordered. need (ordered ! i) \<subseteq> set (take i ordered))"

definition topo_inv ::
  "pystr list \<Rightarrow> dependencies \<Rightarrow> pystr list \<Rightarrow> dependencies \<Rightarrow> pystr list \<Rightarrow> bool" where
  "topo_inv all_tables dp0 ordered dp ready \<longleftrightarrow>
     map fst dp = all_tables \<and>
     distinct ordered \<and> set ordered \<subseteq> set all_tables \<and> set ready \<subseteq> set all_tables \<and>
     (\<forall>t ds0 ds. map_of dp0 t = Some ds0 \<longrightarrow> map_of dp t = Some ds \<longrightarrow>
        set ds0 \<subseteq> set ds \<union> set ordered) \<and>
     (\<forall>t \<in> set ready. in_batch_deps all_tables dp0 t \<subseteq> set ordered) \<and>
     deps_first (in_batch_deps all_tables dp0) ordered"

text \<open>
  \<open>occurs_ci pat s\<close>: some stretch of \<open>s\<close> reads \<open>pat\<close> once its letters are put in
  upper case.
\<close>

definition occurs_ci :: "pystr \<Rightarrow> pystr \<Rightarrow> bool" where
  "occurs_ci pat s = (\<exists>pre mid post. s = pre @ mid @ post \<and> upper mid = pat)"

text \<open>Scenario A of the specification.\<close>

definition scenario_a :: pystr where
  "scenario_a = str ''CREATE TABLE b (id INT, a_id INT REFERENCES a(id)); CREATE TABLE a (id INT);''"


definition scenario_d :: pystr where
  "scenario_d = str ''CREATE TABLE c (id INT, b_id INT REFERENCES b(id)); CREATE TABLE b (id INT, a_id INT REFERENCES a(id)); CREATE TABLE a (id INT);''"

definition lossy_batch :: pystr where
  "lossy_batch = str ''INSERT INTO a VALUES (1); CREATE TABLE a (id INT); CREATE TABLE broken id INT''"

text \<open>
  Batches for the dependency lists: a table that references a table of the batch and a
  table outside it, a table that references only a table outside the batch, a table that
  references the same table of the batch twice, and two tables without references.
\<close>

definition mixed_references :: pystr where
  "mixed_references = str ''CREATE TABLE a (id INT); CREATE TABLE b (a_id INT REFERENCES a(id), e_id INT REFERENCES ext(id));''"

definition outside_reference_only :: pystr where
  "outside_reference_only = str ''CREATE TABLE a (id INT); CREATE TABLE b (e_id INT REFERENCES ext(id));''"

definition repeated_reference :: pystr where
  "repeated_reference = str ''CREATE TABLE a (id INT); CREATE TABLE b (x INT REFERENCES a(id), y INT REFERENCES a(id));''"

definition two_tables :: pystr where
  "two_tables = str ''CREATE TABLE a (id INT); CREATE TABLE b (id INT);''"

text \<open>
  Notions for comparing two orders of set iteration. \<open>scan_step\<close> is one round of the
  inner loop, the body of \<open>scan_dependents\<close>. \<open>emits all_tables dp t\<close> describes, without
  any order, the tables that the loop reaches: the tables that are ready at the start, and
  every table whose list names each of its entries once, all of them reached. The other
  three say where a table stands while the loop runs, relative to the lists \<open>dp0\<close> as
  extracted: \<open>pending\<close>, its list is what is left after one removal for each ordered
  table, and something is left; \<open>covered\<close>, one removal for each ordered table empties
  its list; \<open>stuck\<close>, one removal for each ordered table does not empty it.
  \<open>topo_exact\<close> is the invariant built from them.
\<close>

definition scan_step ::
  "pystr \<Rightarrow> pystr \<Rightarrow> dependencies \<times> pystr list \<Rightarrow> dependencies \<times> pystr list" where
  "scan_step c d s =
     (case s of (dp, ready) \<Rightarrow>
        (case map_of dp d of
           None \<Rightarrow> (dp, ready)
         | Some ds \<Rightarrow>
             if c \<in> set ds
             then (AList.update d (remove1 c ds) dp,
                   if remove1 c ds = [] \<and> d \<notin> set ready then ready @ [d] else ready)
             else (dp, ready)))"

inductive emits :: "pystr list \<Rightarrow> dependencies \<Rightarrow> pystr \<Rightarrow> bool"
  for all_tables :: "pystr list" and dp :: dependencies where
  seed: "initially_ready all_tables dp t \<Longrightarrow> t \<in> set all_tables \<Longrightarrow> emits all_tables dp t"
| deps: "map_of dp t = Some ds \<Longrightarrow> distinct ds \<Longrightarrow> \<forall>d \<in> set ds. emits all_tables dp d \<Longrightarrow>
         emits all_tables dp t"

definition pending :: "dependencies \<Rightarrow> dependencies \<Rightarrow> pystr list \<Rightarrow> pystr \<Rightarrow> bool" where
  "pending dp0 dp ordered t \<longleftrightarrow>
     (\<exists>ds0 ds. map_of dp0 t = Some ds0 \<and> map_of dp t = Some ds \<and> ds \<noteq> [] \<and>
        (\<forall>x. count_list ds x = count_list ds0 x - (if x \<in> set ordered then 1 else 0)))"

definition covered :: "dependencies \<Rightarrow> pystr list \<Rightarrow> pystr \<Rightarrow> bool" where
  "covered dp0 ordered t \<longleftrightarrow>
     (\<exists>ds0. map_of dp0 t = Some ds0 \<and>
        (\<forall>x. count_list ds0 x \<le> (if x \<in> set ordered then 1 else 0)))"

definition stuck :: "dependencies \<Rightarrow> pystr list \<Rightarrow> pystr \<Rightarrow> bool" where
  "stuck dp0 ordered t \<longleftrightarrow>
     (\<exists>ds0 x. map_of dp0 t = Some ds0 \<and> (if x \<in> set ordered then 1 else 0) < count_list ds0 x)"

definition topo_exact ::
  "pystr list \<Rightarrow> dependencies \<Rightarrow> pystr list \<Rightarrow> dependencies \<Rightarrow> pystr list \<Rightarrow> bool" where
  "topo_exact all_tables dp0 ordered dp ready \<longleftrightarrow>
     distinct ready \<and> set ready \<inter> set ordered = {} \<and>
     (\<forall>t \<in> set ordered \<union> set ready. emits all_tables dp0 t) \<and>
     (\<forall>t \<in> set all_tables. t \<in> set ordered \<or> t \<in> set ready \<or> pending dp0 dp ordered t)"

text \<open>
  A batch whose first fragment ends with a comment that repeats the second fragment, and
  a batch of two independent tables followed by a table that references the first.
\<close>

definition commented_batch :: pystr where
  "commented_batch =
     str ''CREATE TABLE a (id INT) -- INSERT INTO a VALUES (1)'' @ [line_feed] @
     str ''; INSERT INTO a VALUES (1);''"

definition three_tables :: pystr where
  "three_tables = str ''CREATE TABLE a (id INT); CREATE TABLE b (id INT); CREATE TABLE c (a_id INT REFERENCES a(id));''"

section \<open>Facts about the text primitives\<close>

lemma latin1_eq_iff [simp]: "latin1 a = latin1 b \<longleftrightarrow> a = b"
  by (simp add: latin1_def)

lemma str_eq_iff [simp]: "str a = str b \<longleftrightarrow> a = b"
  by (simp add: str_def inj_map_eq_map inj_on_def)

lemma str_append: "str (a @ b) = str a @ str b"
  by (simp add: str_def)

lemma startswith_iff: "startswith p s \<longleftrightarrow> (\<exists>post. s = p @ post)"
  by (induction p s rule: startswith.induct) auto

lemma contains_iff: "contains pat s \<longleftrightarrow> (\<exists>pre post. s = pre @ pat @ post)"
proof (induction s)
  case Nil
  show ?case by auto
next
  case (Cons c cs)
  have "(\<exists>pre post. c # cs = pre @ pat @ post) \<longleftrightarrow>
        (\<exists>post. c # cs = pat @ post) \<or> (\<exists>pre post. cs = pre @ pat @ post)"
    (is "?L \<longleftrightarrow> ?A \<or> ?B")
  proof
    assume ?L
    then obtain pre post where e: "c # cs = pre @ pat @ post" by blast
    show "?A \<or> ?B"
    proof (cases pre)
      case Nil
      with e show ?thesis by auto
    next
      case (Cons d pre')
      with e have "cs = pre' @ pat @ post" by simp
      then show ?thesis by blast
    qed
  next
    assume "?A \<or> ?B"
    then show ?L
    proof
      assume ?A
      then obtain post where "c # cs = [] @ pat @ post" by auto
      then show ?L by blast
    next
      assume ?B
      then obtain pre post where "c # cs = (c # pre) @ pat @ post" by auto
      then show ?L by blast
    qed
  qed
  with Cons show ?case by (simp add: startswith_iff)
qed

lemma contains_upper_iff:
  "contains pat (upper s) \<longleftrightarrow> (\<exists>pre mid post. s = pre @ mid @ post \<and> upper mid = pat)"
proof
  assume "contains pat (upper s)"
  then obtain pre' post' where "map upper_cp s = pre' @ (pat @ post')"
    by (auto simp: contains_iff upper_def)
  then obtain pre r where 1: "s = pre @ r" and 2: "pat @ post' = map upper_cp r"
    unfolding map_eq_append_conv by blast
  from 2 obtain mid post where "r = mid @ post" and "map upper_cp mid = pat"
    unfolding append_eq_map_conv by blast
  with 1 show "\<exists>pre mid post. s = pre @ mid @ post \<and> upper mid = pat"
    by (auto simp: upper_def)
next
  assume "\<exists>pre mid post. s = pre @ mid @ post \<and> upper mid = pat"
  then obtain pre mid post where "s = pre @ mid @ post" and "upper mid = pat" by blast
  then have "upper s = upper pre @ pat @ upper post" by (simp add: upper_def)
  then show "contains pat (upper s)" unfolding contains_iff by blast
qed

lemma set_order_empty: "set_order iter \<Longrightarrow> iter [] = []"
  by (auto simp: set_order_def dest!: spec [of _ "[]"])

lemma extract_tables_no_match:
  "\<forall>f \<in> set sts. search_create_table alnum f = None \<Longrightarrow> extract_tables alnum sts (tm, dp) = (tm, dp)"
  by (induction sts) auto

lemma assemble_empty:
  "assemble [] =
     announcement"
  by code_simp

lemma set_order_id: "set_order id"
  by (simp add: set_order_def)

lemma set_order_rev: "set_order rev"
  by (simp add: set_order_def)


section \<open>The pass-through path\<close>

text \<open>
  Claim C5. An input in which no twelve consecutive characters read CREATE TABLE once
  their letters are put in upper case is returned as it is.
\<close>

theorem pass_through_without_create_table:
  assumes "\<not> (\<exists>pre mid post. sql = pre @ mid @ post \<and> upper mid = str ''CREATE TABLE'')"
  shows "order_sql_commands alnum iter sql = Inr sql"
  using assms by (simp add: order_sql_commands_def contains_upper_iff)

theorem pass_through_without_create_table_witness:
  "\<not> (\<exists>pre mid post. (str ''SELECT * FROM users;'') = pre @ mid @ post \<and> upper mid = str ''CREATE TABLE'') \<and>
   order_sql_commands latin1_alnum id (str ''SELECT * FROM users;'') = Inr (str ''SELECT * FROM users;'')"
proof -
  have "\<not> contains (str ''CREATE TABLE'') (upper (str ''SELECT * FROM users;''))"
    by code_simp
  then have h: "\<not> (\<exists>pre mid post. (str ''SELECT * FROM users;'') = pre @ mid @ post \<and> upper mid = str ''CREATE TABLE'')"
    unfolding contains_upper_iff .
  from h pass_through_without_create_table [OF h] show ?thesis by blast
qed


section \<open>No fragment with a header\<close>

text \<open>
  Claim C10. When the input holds CREATE TABLE in some letter case but no trimmed
  fragment matches the header pattern, the table map is empty, the success path is
  taken and the result is the announcement line alone, without its line feed: nothing
  of the input is in the output.
\<close>

theorem no_header_match_gives_header_only:
  assumes "set_order iter"
    and "contains (str ''CREATE TABLE'') (upper sql)"
    and "\<forall>f \<in> set (statements sql). search_create_table alnum f = None"
  shows "order_sql_commands alnum iter sql =
     Inr announcement"
proof -
  from assms(3) have "parse_tables alnum sql = ([], [])"
    by (simp add: parse_tables_def extract_tables_no_match)
  moreover from assms(1) have "iter [] = []" by (rule set_order_empty)
  ultimately show ?thesis
    using assms(2) by (simp add: order_sql_commands_def topological_sort_def assemble_empty)
qed


theorem no_header_match_gives_header_only_witness:
  "set_order id \<and> contains (str ''CREATE TABLE'') (upper (str ''create table; INSERT INTO t VALUES (1);'')) \<and>
   map (search_create_table latin1_alnum) (statements (str ''create table; INSERT INTO t VALUES (1);'')) = [None, None] \<and>
   order_sql_commands latin1_alnum id (str ''create table; INSERT INTO t VALUES (1);'') =
     Inr announcement"
proof -
  have a: "contains (str ''CREATE TABLE'') (upper (str ''create table; INSERT INTO t VALUES (1);''))"
    by code_simp
  have b: "map (search_create_table latin1_alnum) (statements (str ''create table; INSERT INTO t VALUES (1);'')) = [None, None]"
    by code_simp
  have "set (map (search_create_table latin1_alnum) (statements (str ''create table; INSERT INTO t VALUES (1);''))) = {None}"
    by (simp only: b) simp
  then have c: "\<forall>f \<in> set (statements (str ''create table; INSERT INTO t VALUES (1);'')). search_create_table latin1_alnum f = None"
    by auto
  from no_header_match_gives_header_only [OF set_order_id a c] set_order_id a b
  show ?thesis by blast
qed

section \<open>The ordering loop keeps its invariant\<close>

lemma deps_first_Nil: "deps_first need []"
  by (simp add: deps_first_def)

lemma deps_first_snoc:
  "deps_first need ordered \<Longrightarrow> need c \<subseteq> set ordered \<Longrightarrow> deps_first need (ordered @ [c])"
  by (auto simp: deps_first_def nth_append less_Suc_eq)

lemma map_of_Some_key: "map_of al k = Some v \<Longrightarrow> k \<in> fst ` set al"
  using map_of_eq_None_iff [of al k] by auto

lemma update_present_keys: "map_of al k = Some v \<Longrightarrow> map fst (AList.update k v' al) = map fst al"
  by (simp add: update_keys map_of_Some_key)

lemma topo_inv_update:
  assumes inv: "topo_inv all_tables dp0 ordered dp ready"
    and t: "map_of dp t = Some ds"
    and c: "c \<in> set ordered"
  shows "topo_inv all_tables dp0 ordered (AList.update t (remove1 c ds) dp)
           (if remove1 c ds = [] \<and> t \<notin> set ready then ready @ [t] else ready)"
proof -
  let ?ds' = "remove1 c ds"
  let ?dp' = "AList.update t ?ds' dp"
  have keys: "map fst ?dp' = all_tables"
    using inv t by (simp add: topo_inv_def update_present_keys)
  have tin: "t \<in> set all_tables"
    using inv t by (auto simp: topo_inv_def dest: map_of_Some_key)
  have sub: "set ds \<subseteq> insert c (set ?ds')"
    by (metis in_set_remove1 insertCI subsetI)
  have removed: "set ds0 \<subseteq> set dsx \<union> set ordered"
    if "map_of dp0 u = Some ds0" "map_of ?dp' u = Some dsx" for u ds0 dsx
  proof (cases "u = t")
    case True
    with that t inv have "set ds0 \<subseteq> set ds \<union> set ordered" and "dsx = ?ds'"
      by (auto simp: topo_inv_def update_conv')
    with sub c show ?thesis by auto
  next
    case False
    with that inv show ?thesis
      by (simp add: topo_inv_def update_conv')
  qed
  have new_ready: "in_batch_deps all_tables dp0 t \<subseteq> set ordered" if "?ds' = []"
  proof (cases "map_of dp0 t")
    case None
    then show ?thesis by (simp add: in_batch_deps_def)
  next
    case (Some ds0)
    have "map_of ?dp' t = Some ?ds'" by (simp add: update_conv')
    from removed [OF Some this] that Some show ?thesis
      by (auto simp: in_batch_deps_def)
  qed
  show ?thesis
    unfolding topo_inv_def
    using keys tin removed new_ready inv
    by (auto simp: topo_inv_def)
qed

lemma scan_dependents_inv:
  assumes "scan_dependents c ts (dp, ready) = (dp', ready')"
    and "c \<in> set ordered"
    and "topo_inv all_tables dp0 ordered dp ready"
  shows "topo_inv all_tables dp0 ordered dp' ready'"
  using assms
proof (induction ts arbitrary: dp ready)
  case Nil
  then show ?case by simp
next
  case (Cons t ts)
  show ?case
  proof (cases "map_of dp t")
    case None
    with Cons show ?thesis by simp
  next
    case (Some ds)
    show ?thesis
    proof (cases "c \<in> set ds")
      case False
      with Some Cons show ?thesis by simp
    next
      case True
      from Cons.prems(1) Some True
      have "scan_dependents c ts
              (AList.update t (remove1 c ds) dp,
               if remove1 c ds = [] \<and> t \<notin> set ready then ready @ [t] else ready) = (dp', ready')"
        by (simp add: Let_def)
      moreover note Cons.prems(2)
      moreover have "topo_inv all_tables dp0 ordered (AList.update t (remove1 c ds) dp)
               (if remove1 c ds = [] \<and> t \<notin> set ready then ready @ [t] else ready)"
        using Cons.prems(3) Some Cons.prems(2) by (rule topo_inv_update)
      ultimately show ?thesis by (rule Cons.IH)
    qed
  qed
qed

lemma topo_inv_pop:
  assumes "topo_inv all_tables dp0 ordered dp (c # ready)"
  shows "topo_inv all_tables dp0 (if c \<in> set ordered then ordered else ordered @ [c]) dp ready"
proof (cases "c \<in> set ordered")
  case True
  with assms show ?thesis by (simp add: topo_inv_def)
next
  case False
  from assms have r: "deps_first (in_batch_deps all_tables dp0) (ordered @ [c])"
    by (auto simp: topo_inv_def intro: deps_first_snoc)
  from assms have k: "map fst dp = all_tables" "distinct ordered" "set ordered \<subseteq> set all_tables"
    "c \<in> set all_tables" "set ready \<subseteq> set all_tables"
    by (simp_all add: topo_inv_def)
  from assms have d: "\<forall>t ds0 ds. map_of dp0 t = Some ds0 \<longrightarrow> map_of dp t = Some ds \<longrightarrow>
        set ds0 \<subseteq> set ds \<union> set (ordered @ [c])"
    unfolding topo_inv_def by (simp add: subset_iff)
  from assms have e: "\<forall>t \<in> set ready. in_batch_deps all_tables dp0 t \<subseteq> set (ordered @ [c])"
    unfolding topo_inv_def by (simp add: subset_iff)
  from False k r d e show ?thesis
    unfolding topo_inv_def by simp
qed

lemma topo_loop_inv:
  "topo_inv all_tables dp0 ordered dp ready \<Longrightarrow>
   distinct (topo_loop iter all_tables ordered dp ready) \<and>
   set (topo_loop iter all_tables ordered dp ready) \<subseteq> set all_tables \<and>
   deps_first (in_batch_deps all_tables dp0) (topo_loop iter all_tables ordered dp ready)"
proof (induction iter all_tables ordered dp ready rule: topo_loop.induct)
  case (1 iter all_tables ordered dp)
  then show ?case by (simp add: topo_inv_def)
next
  case (2 iter all_tables ordered dp c ready)
  define ordered' where "ordered' = (if c \<in> set ordered then ordered else ordered @ [c])"
  obtain dp' ready' where
    scan: "scan_dependents c (iter (filter (\<lambda>t. t \<notin> set ordered') all_tables)) (dp, ready) = (dp', ready')"
    by (cases "scan_dependents c (iter (filter (\<lambda>t. t \<notin> set ordered') all_tables)) (dp, ready)")
  have "topo_inv all_tables dp0 ordered' dp ready"
    unfolding ordered'_def using "2.prems" by (rule topo_inv_pop)
  moreover have "c \<in> set ordered'" by (simp add: ordered'_def)
  ultimately have "topo_inv all_tables dp0 ordered' dp' ready'"
    using scan by (blast intro: scan_dependents_inv)
  from "2.IH" [OF ordered'_def scan [symmetric] this] scan
  show ?case by (simp add: ordered'_def)
qed

lemma ready_to_process_filter:
  "set ts \<subseteq> fst ` set dp \<Longrightarrow>
   ready_to_process all_tables dp ts = Inr (filter (initially_ready all_tables dp) ts)"
proof (induction ts)
  case Nil
  show ?case by simp
next
  case (Cons t ts)
  then have "t \<in> fst ` set dp" by simp
  then obtain ds where "map_of dp t = Some ds"
    using map_of_eq_None_iff [of dp t] by auto
  with Cons show ?case by (simp add: initially_ready_def)
qed

lemma initially_ready_no_deps:
  "initially_ready all_tables dp t \<Longrightarrow> in_batch_deps all_tables dp t = {}"
  by (auto simp: initially_ready_def in_batch_deps_def split: option.splits)

lemma set_order_set: "set_order iter \<Longrightarrow> distinct xs \<Longrightarrow> set (iter xs) = set xs"
  by (simp add: set_order_def)

lemma set_order_distinct: "set_order iter \<Longrightarrow> distinct xs \<Longrightarrow> distinct (iter xs)"
  by (simp add: set_order_def)

lemma topological_sort_seed:
  assumes "set_order iter" and "distinct all_tables" and "map fst dp = all_tables"
  shows "topological_sort iter all_tables dp =
     Inr (topo_loop iter all_tables [] dp (filter (initially_ready all_tables dp) (iter all_tables)))"
proof -
  have "set (iter all_tables) \<subseteq> fst ` set dp"
    using assms set_order_set [OF assms(1,2)] by auto
  then show ?thesis
    by (simp add: topological_sort_def ready_to_process_filter)
qed

lemma topo_inv_initial:
  assumes "set_order iter" and "distinct all_tables" and "map fst dp = all_tables"
  shows "topo_inv all_tables dp [] dp (filter (initially_ready all_tables dp) (iter all_tables))"
  unfolding topo_inv_def
  using assms set_order_set [OF assms(1,2)]
  by (auto simp: deps_first_Nil initially_ready_no_deps)

lemma topological_sort_correct:
  assumes "set_order iter" and "distinct all_tables" and "map fst dp = all_tables"
  shows "\<exists>ordered. topological_sort iter all_tables dp = Inr ordered \<and> distinct ordered \<and>
           set ordered \<subseteq> set all_tables \<and> deps_first (in_batch_deps all_tables dp) ordered"
  using topological_sort_seed [OF assms] topo_loop_inv [OF topo_inv_initial [OF assms]]
  by simp

lemma extract_tables_keys:
  "extract_tables alnum sts (tm, dp) = (tm', dp') \<Longrightarrow> map fst dp = map fst tm \<Longrightarrow>
   map fst dp' = map fst tm'"
proof (induction sts arbitrary: tm dp)
  case Nil
  then show ?case by simp
next
  case (Cons st sts)
  show ?case
  proof (cases "search_create_table alnum st")
    case None
    with Cons show ?thesis by simp
  next
    case (Some n)
    with Cons.prems(1) have
      "extract_tables alnum sts (AList.update n (st @ [semicolon]) tm, AList.update n (findall_references alnum st) dp)
         = (tm', dp')"
      by simp
    moreover have "map fst (AList.update n (findall_references alnum st) dp) =
        map fst (AList.update n (st @ [semicolon]) tm)"
      using Cons.prems(2) by (simp add: update_keys)
    ultimately show ?thesis by (rule Cons.IH)
  qed
qed

lemma extract_tables_distinct:
  "extract_tables alnum sts (tm, dp) = (tm', dp') \<Longrightarrow> distinct (map fst tm) \<Longrightarrow>
   distinct (map fst tm')"
proof (induction sts arbitrary: tm dp)
  case Nil
  then show ?case by simp
next
  case (Cons st sts)
  show ?case
  proof (cases "search_create_table alnum st")
    case None
    with Cons show ?thesis by simp
  next
    case (Some n)
    with Cons.prems(1) have
      "extract_tables alnum sts (AList.update n (st @ [semicolon]) tm, AList.update n (findall_references alnum st) dp)
         = (tm', dp')"
      by simp
    moreover have "distinct (map fst (AList.update n (st @ [semicolon]) tm))"
      using Cons.prems(2) by (rule distinct_update)
    ultimately show ?thesis by (rule Cons.IH)
  qed
qed

lemma parse_tables_keys:
  assumes "parse_tables alnum sql = (tm, dp)"
  shows "map fst dp = map fst tm" and "distinct (map fst tm)"
proof -
  from assms have e: "extract_tables alnum (statements sql) ([], []) = (tm, dp)"
    by (simp add: parse_tables_def)
  from extract_tables_keys [OF e] show "map fst dp = map fst tm" by simp
  from extract_tables_distinct [OF e] show "distinct (map fst tm)" by simp
qed

lemma lookup_statements_map:
  "set ts \<subseteq> fst ` set tm \<Longrightarrow> lookup_statements tm ts = Inr (map (statement_of tm) ts)"
proof (induction ts)
  case Nil
  show ?case by simp
next
  case (Cons t ts)
  then have "t \<in> fst ` set tm" by simp
  then obtain st where "map_of tm t = Some st"
    using map_of_eq_None_iff [of tm t] by auto
  with Cons show ?case by (simp add: statement_of_def)
qed

lemma sorted_run:
  assumes "set_order iter" and "parse_tables alnum sql = (tm, dp)"
  shows "\<exists>ordered. topological_sort iter (map fst tm) dp = Inr ordered \<and> distinct ordered \<and>
           set ordered \<subseteq> fst ` set tm \<and> deps_first (in_batch_deps (map fst tm) dp) ordered \<and>
           lookup_statements tm ordered = Inr (map (statement_of tm) ordered)"
proof -
  from topological_sort_correct [OF assms(1) parse_tables_keys(2) [OF assms(2)]
      parse_tables_keys(1) [OF assms(2)]]
  obtain ordered where o: "topological_sort iter (map fst tm) dp = Inr ordered" "distinct ordered"
    "set ordered \<subseteq> set (map fst tm)" "deps_first (in_batch_deps (map fst tm) dp) ordered"
    by blast
  from o(3) have "lookup_statements tm ordered = Inr (map (statement_of tm) ordered)"
    by (intro lookup_statements_map) simp
  with o show ?thesis by auto
qed

lemma all_ordered:
  assumes "set_order iter" and "distinct all_tables" and "distinct ordered"
    and "set ordered \<subseteq> set all_tables"
    and "\<not> (length ordered \<noteq> length all_tables \<and>
            iter (filter (\<lambda>t. t \<notin> set ordered) all_tables) \<noteq> [])"
  shows "set ordered = set all_tables"
proof (cases "length ordered = length all_tables")
  case True
  with assms(2,3) have "card (set ordered) = card (set all_tables)"
    by (simp add: distinct_card)
  with assms(4) show ?thesis
    by (intro card_subset_eq) simp_all
next
  case False
  with assms(5) have "iter (filter (\<lambda>t. t \<notin> set ordered) all_tables) = []" by simp
  moreover have "set (iter (filter (\<lambda>t. t \<notin> set ordered) all_tables)) =
      set (filter (\<lambda>t. t \<notin> set ordered) all_tables)"
    using assms(1,2) by (intro set_order_set) simp_all
  ultimately have "set (filter (\<lambda>t. t \<notin> set ordered) all_tables) = {}" by simp
  then have "set all_tables \<subseteq> set ordered" by (auto simp: filter_empty_conv)
  with assms(4) show ?thesis by blast
qed

lemma sorted_tables_Some:
  assumes "set_order iter" and "sorted_tables alnum iter sql = Some ordered"
    and "parse_tables alnum sql = (tm, dp)"
  shows "distinct ordered" and "set ordered = fst ` set tm"
    and "deps_first (in_batch_deps (map fst tm) dp) ordered"
    and "order_sql_commands alnum iter sql = Inr (assemble (map (statement_of tm) ordered))"
proof -
  from sorted_run [OF assms(1,3)] obtain ordered' where
    o: "topological_sort iter (map fst tm) dp = Inr ordered'" "distinct ordered'"
      "set ordered' \<subseteq> fst ` set tm" "deps_first (in_batch_deps (map fst tm) dp) ordered'"
      "lookup_statements tm ordered' = Inr (map (statement_of tm) ordered')"
    by blast
  from assms(2,3) o(1) have c: "contains (str ''CREATE TABLE'') (upper sql)"
    and s: "\<not> (length ordered' \<noteq> length tm \<and>
            iter (filter (\<lambda>t. t \<notin> set ordered') (map fst tm)) \<noteq> [])"
    and e: "ordered' = ordered"
    by (auto simp: sorted_tables_def split: if_splits)
  from o(2) e show "distinct ordered" by simp
  from o(4) e show "deps_first (in_batch_deps (map fst tm) dp) ordered" by simp
  have "set ordered' = set (map fst tm)"
    using assms(1) parse_tables_keys(2) [OF assms(3)] o(2) _ _
  proof (rule all_ordered)
    show "set ordered' \<subseteq> set (map fst tm)" using o(3) by simp
    show "\<not> (length ordered' \<noteq> length (map fst tm) \<and>
            iter (filter (\<lambda>t. t \<notin> set ordered') (map fst tm)) \<noteq> [])"
      using s by simp
  qed
  with e show "set ordered = fst ` set tm" by simp
  from c s e o(1,5) assms(3)
  show "order_sql_commands alnum iter sql = Inr (assemble (map (statement_of tm) ordered))"
    by (auto simp: order_sql_commands_def Let_def)
qed

lemma deps_first_before:
  assumes "deps_first need ordered" and "A \<in> set ordered" and "B \<in> need A"
  shows "\<exists>pre mid post. ordered = pre @ B # mid @ A # post"
proof -
  from assms(2) obtain i where i: "i < length ordered" "ordered ! i = A"
    by (auto simp: in_set_conv_nth)
  with assms(1,3) have "B \<in> set (take i ordered)"
    by (auto simp: deps_first_def)
  then obtain pre mid where "take i ordered = pre @ B # mid"
    by (auto dest: split_list)
  moreover from i(1) have "ordered = take i ordered @ ordered ! i # drop (Suc i) ordered"
    by (rule id_take_nth_drop)
  then have "ordered = take i ordered @ A # drop (Suc i) ordered"
    by (simp only: i(2))
  ultimately have "ordered = pre @ B # mid @ A # drop (Suc i) ordered" by simp
  then show ?thesis by blast
qed



section \<open>Totality\<close>

text \<open>
  Claim C7. Whatever the input and whatever the order in which sets are iterated, the
  run ends and returns a pystr: the loop is a total function (its termination is proved
  with its definition), and neither dictionary access raises \<^verbatim>\<open>KeyError\<close>.
\<close>

theorem order_sql_commands_total:
  assumes "set_order iter"
  shows "\<exists>out. order_sql_commands alnum iter sql = Inr out"
proof (cases "parse_tables alnum sql")
  case (Pair tm dp)
  from sorted_run [OF assms Pair] obtain ordered where
    "topological_sort iter (map fst tm) dp = Inr ordered"
    "lookup_statements tm ordered = Inr (map (statement_of tm) ordered)"
    by blast
  with Pair show ?thesis
    by (simp add: order_sql_commands_def Let_def)
qed

theorem order_sql_commands_total_witness:
  "set_order id \<and>
   (\<exists>out. order_sql_commands latin1_alnum id (str ''DROP TABLE x; create table (; CREATE TABLE t (t_id INT REFERENCES t(id));'') = Inr out)"
  using order_sql_commands_total [of id latin1_alnum "(str ''DROP TABLE x; create table (; CREATE TABLE t (t_id INT REFERENCES t(id));'')"]
    set_order_id
  by simp

section \<open>Referenced tables come first\<close>

text \<open>
  Claim C3. On the success path, when the dependency list extracted for table \<open>A\<close> holds
  the name of a table \<open>B\<close> of the batch, \<open>B\<close> stands strictly before \<open>A\<close> in the list of
  ordered tables, whose statements make up the output in that order. For Scenario A the
  statement of \<open>a\<close> is put before that of \<open>b\<close>, in whichever order the set of the two
  tables is iterated.
\<close>

theorem referenced_table_emitted_first:
  assumes "set_order iter"
    and "sorted_tables alnum iter sql = Some ordered"
    and "parse_tables alnum sql = (tm, dp)"
    and "map_of dp A = Some dsA" and "B \<in> set dsA" and "B \<in> fst ` set tm"
  shows "order_sql_commands alnum iter sql = Inr (assemble (map (statement_of tm) ordered)) \<and>
         (\<exists>pre mid post. ordered = pre @ B # mid @ A # post)"
proof -
  note s = sorted_tables_Some [OF assms(1-3)]
  from assms(4) have "A \<in> fst ` set dp" by (rule map_of_Some_key)
  then have "A \<in> set (map fst dp)" by simp
  then have "A \<in> set ordered"
    using s(2) parse_tables_keys(1) [OF assms(3)] by simp
  moreover from assms(4-6) have "B \<in> in_batch_deps (map fst tm) dp A"
    by (simp add: in_batch_deps_def)
  ultimately have "\<exists>pre mid post. ordered = pre @ B # mid @ A # post"
    using s(3) by (intro deps_first_before)
  with s(4) show ?thesis by simp
qed

theorem referenced_table_emitted_first_witness:
  "set_order id \<and>
   sorted_tables latin1_alnum id scenario_a = Some [str ''a'', str ''b''] \<and>
   parse_tables latin1_alnum scenario_a =
     ([(str ''b'', str ''CREATE TABLE b (id INT, a_id INT REFERENCES a(id));''),
       (str ''a'', str ''CREATE TABLE a (id INT);'')],
      [(str ''b'', [str ''a'']), (str ''a'', [])]) \<and>
   order_sql_commands latin1_alnum id scenario_a =
     Inr (success_header @ [line_feed] @ str ''CREATE TABLE a (id INT);'' @ [line_feed, line_feed, line_feed] @
          str ''CREATE TABLE b (id INT, a_id INT REFERENCES a(id));'') \<and>
   order_sql_commands latin1_alnum rev scenario_a = order_sql_commands latin1_alnum id scenario_a \<and>
   (\<exists>pre mid post. [str ''a'', str ''b''] = pre @ (str ''a'') # mid @ (str ''b'') # post)"
proof -
  let ?tm = "[(str ''b'', str ''CREATE TABLE b (id INT, a_id INT REFERENCES a(id));''),
       (str ''a'', str ''CREATE TABLE a (id INT);'')]"
  let ?dp = "[(str ''b'', [str ''a'']), (str ''a'', [])] :: dependencies"
  have p: "parse_tables latin1_alnum scenario_a = (?tm, ?dp)" by code_simp
  have s: "sorted_tables latin1_alnum id scenario_a = Some [str ''a'', str ''b'']" by code_simp
  have r: "order_sql_commands latin1_alnum rev scenario_a = order_sql_commands latin1_alnum id scenario_a" by code_simp
  have m: "map_of ?dp (str ''b'') = Some [str ''a'']" by simp
  have b: "(str ''a'') \<in> set [str ''a'']" by simp
  have k: "(str ''a'') \<in> fst ` set ?tm" by simp
  have a: "assemble (map (statement_of ?tm) [str ''a'', str ''b'']) =
     success_header @ [line_feed] @ str ''CREATE TABLE a (id INT);'' @ [line_feed, line_feed, line_feed] @
          str ''CREATE TABLE b (id INT, a_id INT REFERENCES a(id));''"
    by code_simp
  from referenced_table_emitted_first [OF set_order_id s p m b k]
  have "order_sql_commands latin1_alnum id scenario_a = Inr (assemble (map (statement_of ?tm) [str ''a'', str ''b'']))"
    and e: "\<exists>pre mid post. [str ''a'', str ''b''] = pre @ (str ''a'') # mid @ (str ''b'') # post"
    by blast+
  then have "order_sql_commands latin1_alnum id scenario_a =
     Inr (success_header @ [line_feed] @ str ''CREATE TABLE a (id INT);'' @ [line_feed, line_feed, line_feed] @
          str ''CREATE TABLE b (id INT, a_id INT REFERENCES a(id));'')"
    by (simp only: a)
  with set_order_id s p r e show ?thesis by blast
qed

section \<open>Fragments, headers and the table map\<close>

lemma of_char_lower_char:
  "of_char (lower_char c) =
     (if 65 \<le> (of_char c :: nat) \<and> (of_char c :: nat) \<le> 90 then of_char c + 32 else (of_char c :: nat))"
  by (simp add: lower_char_def Let_def)

lemma of_char_upper_char:
  "of_char (upper_char c) =
     (if 97 \<le> (of_char c :: nat) \<and> (of_char c :: nat) \<le> 122 then of_char c - 32 else (of_char c :: nat))"
proof -
  have "(of_char c :: nat) - 32 < 256"
    using nat_of_char_less_256 [of c] by linarith
  then show ?thesis
    by (simp add: upper_char_def Let_def)
qed

lemma lower_eq_upper_eq:
  assumes "lower_char c = lower_char p"
  shows "upper_char c = upper_char p"
proof -
  from assms have "(of_char (lower_char c) :: nat) = of_char (lower_char p)" by simp
  then have "(of_char (upper_char c) :: nat) = of_char (upper_char p)"
    unfolding of_char_lower_char of_char_upper_char
    by (auto split: if_splits)
  then show ?thesis by (simp only: of_char_eq_iff)
qed

lemma ignorecase_eq_upper:
  assumes "ignorecase_eq a c" and "lower_char a \<noteq> CHR ''s''"
  shows "upper_cp c = latin1 (upper_char a)"
proof (cases c)
  case (Codepoint p h l)
  with assms have "p = CHR 0x00" "h = CHR 0x00" "lower_char l = lower_char a"
    by auto
  with Codepoint lower_eq_upper_eq [of l a] show ?thesis
    by (simp add: latin1_def)
qed

lemma match_literal_split:
  "match_literal p s = Some r \<Longrightarrow> CHR ''s'' \<notin> lower_char ` set p \<Longrightarrow>
   \<exists>m. s = m @ r \<and> upper m = str (map upper_char p)"
proof (induction p s rule: match_literal.induct)
  case (1 s)
  then show ?case by (simp add: upper_def str_def)
next
  case (2 a as)
  then show ?case by simp
next
  case (3 a as c cs)
  from "3.prems" have l: "ignorecase_eq a c" and "match_literal as cs = Some r"
    and s: "lower_char a \<noteq> CHR ''s''" and "CHR ''s'' \<notin> lower_char ` set as"
    by (auto split: if_splits)
  with "3.IH" obtain m where "cs = m @ r" "upper m = str (map upper_char as)" by blast
  with ignorecase_eq_upper [OF l s]
  have "c # cs = (c # m) @ r \<and> upper (c # m) = str (map upper_char (a # as))"
    by (simp add: upper_def str_def)
  then show ?case by blast
qed

lemma occurs_ci_inside: "occurs_ci pat f \<Longrightarrow> occurs_ci pat (pre @ f @ post)"
proof -
  assume "occurs_ci pat f"
  then obtain a mid b where "f = a @ mid @ b" "upper mid = pat"
    by (auto simp: occurs_ci_def)
  then have "pre @ f @ post = (pre @ a) @ mid @ (b @ post) \<and> upper mid = pat" by simp
  then show ?thesis unfolding occurs_ci_def by blast
qed

lemma upper_CREATE_TABLE: "str (map upper_char ''CREATE TABLE'') = str ''CREATE TABLE''"
  by code_simp

lemma no_s_in_CREATE_TABLE: "CHR ''s'' \<notin> lower_char ` set ''CREATE TABLE''"
  by code_simp

lemma match_create_table_occurs:
  assumes "match_create_table alnum s = Some n"
  shows "occurs_ci (str ''CREATE TABLE'') s"
proof -
  from assms obtain r where "match_literal ''CREATE TABLE'' s = Some r"
    by (auto simp: match_create_table_def split: option.splits)
  from match_literal_split [OF this no_s_in_CREATE_TABLE]
  obtain m where "s = m @ r" "upper m = str (map upper_char ''CREATE TABLE'')"
    by blast
  then have "s = m @ r" "upper m = str ''CREATE TABLE''"
    by (simp_all only: upper_CREATE_TABLE)
  then have "s = [] @ m @ r \<and> upper m = str ''CREATE TABLE''" by simp
  then show ?thesis unfolding occurs_ci_def by blast
qed

lemma search_create_table_occurs:
  "search_create_table alnum s = Some n \<Longrightarrow> occurs_ci (str ''CREATE TABLE'') s"
proof (induction s)
  case Nil
  then show ?case by (auto dest: match_create_table_occurs)
next
  case (Cons c cs)
  show ?case
  proof (cases "match_create_table alnum (c # cs)")
    case (Some m)
    then show ?thesis by (rule match_create_table_occurs)
  next
    case None
    with Cons have "occurs_ci (str ''CREATE TABLE'') cs" by simp
    from occurs_ci_inside [OF this, of "[c]" "[]"] show ?thesis by simp
  qed
qed

lemma strip_inside: "\<exists>pre post. s = pre @ strip s @ post"
proof -
  define y where "y = dropWhile isspace s"
  have "s = takeWhile isspace s @ y" by (simp add: y_def)
  moreover have "rev (takeWhile isspace (rev y) @ dropWhile isspace (rev y)) =
      rev (dropWhile isspace (rev y)) @ rev (takeWhile isspace (rev y))"
    by (rule rev_append)
  then have "y = rev (dropWhile isspace (rev y)) @ rev (takeWhile isspace (rev y))"
    by (simp only: takeWhile_dropWhile_id rev_rev_ident)
  then have "y = strip s @ rev (takeWhile isspace (rev y))"
    by (simp only: strip_def y_def)
  ultimately have "s = takeWhile isspace s @ strip s @ rev (takeWhile isspace (rev y))" by simp
  then show ?thesis by blast
qed

lemma split_on_first:
  "split_on sep s = w # ws \<Longrightarrow> \<exists>post. s = w @ post"
proof (induction s arbitrary: w ws)
  case Nil
  then show ?case by simp
next
  case (Cons c cs)
  show ?case
  proof (cases "c = sep")
    case True
    with Cons.prems show ?thesis by simp
  next
    case False
    show ?thesis
    proof (cases "split_on sep cs")
      case Nil
      with False Cons.prems show ?thesis by auto
    next
      case (Cons v vs)
      with Cons.IH obtain post where "cs = v @ post" by blast
      with False Cons Cons.prems show ?thesis by auto
    qed
  qed
qed

lemma split_on_inside:
  "g \<in> set (split_on sep s) \<Longrightarrow> \<exists>pre post. s = pre @ g @ post"
proof (induction s arbitrary: g)
  case Nil
  then show ?case by simp
next
  case (Cons c cs)
  show ?case
  proof (cases "c = sep")
    case True
    with Cons.prems have "g = [] \<or> g \<in> set (split_on sep cs)" by simp
    then show ?thesis
    proof
      assume "g = []"
      then have "c # cs = [] @ g @ (c # cs)" by simp
      then show ?thesis by blast
    next
      assume "g \<in> set (split_on sep cs)"
      with Cons.IH obtain pre post where "cs = pre @ g @ post" by blast
      then have "c # cs = (c # pre) @ g @ post" by simp
      then show ?thesis by blast
    qed
  next
    case False
    show ?thesis
    proof (cases "split_on sep cs")
      case Nil
      with False Cons.prems have "g = [c]" by simp
      then have "c # cs = [] @ g @ cs" by simp
      then show ?thesis by blast
    next
      case (Cons v vs)
      with False Cons.prems have "g = c # v \<or> g \<in> set vs" by simp
      then show ?thesis
      proof
        assume g: "g = c # v"
        from split_on_first [OF Cons] obtain post where "cs = v @ post" by blast
        with g have "c # cs = [] @ g @ post" by simp
        then show ?thesis by blast
      next
        assume "g \<in> set vs"
        with Cons have "g \<in> set (split_on sep cs)" by simp
        with Cons.IH obtain pre post where "cs = pre @ g @ post" by blast
        then have "c # cs = (c # pre) @ g @ post" by simp
        then show ?thesis by blast
      qed
    qed
  qed
qed

lemma statements_inside:
  assumes "f \<in> set (statements sql)"
  shows "\<exists>pre post. sql = pre @ f @ post"
proof -
  from assms obtain g where g: "g \<in> set (split_on semicolon sql)" and f: "f = strip g"
    by (auto simp: statements_def)
  from split_on_inside [OF g] obtain pre post where 1: "sql = pre @ g @ post" by blast
  from strip_inside [of g] f obtain a b where "g = a @ f @ b" by blast
  with 1 have "sql = (pre @ a) @ f @ (b @ post)" by simp
  then show ?thesis by blast
qed

lemma extract_tables_key_set:
  "extract_tables alnum sts (tm, dp) = (tm', dp') \<Longrightarrow>
   fst ` set tm' = fst ` set tm \<union> {n. \<exists>f \<in> set sts. search_create_table alnum f = Some n}"
proof (induction sts arbitrary: tm dp)
  case Nil
  then show ?case by simp
next
  case (Cons st sts)
  show ?case
  proof (cases "search_create_table alnum st")
    case None
    with Cons.prems have "extract_tables alnum sts (tm, dp) = (tm', dp')" by simp
    from Cons.IH [OF this] None show ?thesis by auto
  next
    case (Some n)
    with Cons.prems have
      "extract_tables alnum sts (AList.update n (st @ [semicolon]) tm, AList.update n (findall_references alnum st) dp)
         = (tm', dp')"
      by simp
    from Cons.IH [OF this] Some show ?thesis
      by (auto simp: dom_update)
  qed
qed

lemma parse_tables_key_set:
  "parse_tables alnum sql = (tm, dp) \<Longrightarrow>
   fst ` set tm = {n. \<exists>f \<in> set (statements sql). search_create_table alnum f = Some n}"
  using extract_tables_key_set [of alnum "statements sql" "[]" "[]" tm dp]
  by (simp add: parse_tables_def)

lemma recognized_contains:
  assumes "parse_tables alnum sql = (tm, dp)" and "map_of dp x = Some ds"
  shows "contains (str ''CREATE TABLE'') (upper sql)"
proof -
  from assms(2) have "x \<in> fst ` set dp" by (rule map_of_Some_key)
  then have "x \<in> set (map fst dp)" by simp
  then have "x \<in> fst ` set tm"
    using parse_tables_keys(1) [OF assms(1)] by simp
  with parse_tables_key_set [OF assms(1)] obtain f where
    f: "f \<in> set (statements sql)" "search_create_table alnum f = Some x"
    by auto
  from statements_inside [OF f(1)] obtain pre post where "sql = pre @ f @ post" by blast
  with occurs_ci_inside [OF search_create_table_occurs [OF f(2)], of pre post]
  show ?thesis by (simp add: contains_upper_iff occurs_ci_def)
qed

lemma extract_tables_values:
  "extract_tables alnum sts (tm, dp) = (tm', dp') \<Longrightarrow> map_of tm' k = Some v \<Longrightarrow>
   map_of tm k = Some v \<or> (\<exists>f \<in> set sts. search_create_table alnum f = Some k \<and> v = f @ [semicolon])"
proof (induction sts arbitrary: tm dp)
  case Nil
  then show ?case by simp
next
  case (Cons st sts)
  show ?case
  proof (cases "search_create_table alnum st")
    case None
    with Cons.prems have "extract_tables alnum sts (tm, dp) = (tm', dp')" by simp
    from Cons.IH [OF this Cons.prems(2)] show ?thesis by auto
  next
    case (Some n)
    with Cons.prems have
      "extract_tables alnum sts (AList.update n (st @ [semicolon]) tm, AList.update n (findall_references alnum st) dp)
         = (tm', dp')"
      by simp
    from Cons.IH [OF this Cons.prems(2)]
    have "map_of (AList.update n (st @ [semicolon]) tm) k = Some v \<or>
          (\<exists>f \<in> set sts. search_create_table alnum f = Some k \<and> v = f @ [semicolon])" .
    then show ?thesis
    proof
      assume "map_of (AList.update n (st @ [semicolon]) tm) k = Some v"
      then have "(k = n \<and> v = st @ [semicolon]) \<or> map_of tm k = Some v"
        by (auto simp: update_conv' split: if_splits)
      with Some show ?thesis by auto
    next
      assume "\<exists>f \<in> set sts. search_create_table alnum f = Some k \<and> v = f @ [semicolon]"
      then show ?thesis by auto
    qed
  qed
qed

lemma parse_tables_values:
  assumes "parse_tables alnum sql = (tm, dp)" and "map_of tm k = Some v"
  shows "\<exists>f \<in> set (statements sql). search_create_table alnum f = Some k \<and> v = f @ [semicolon]"
  using extract_tables_values [of alnum "statements sql" "[]" "[]" tm dp k v] assms
  by (simp add: parse_tables_def)

lemma not_all_ordered:
  assumes "distinct all_tables" and "distinct ordered" and "set ordered \<subseteq> set all_tables"
    and "x \<in> set all_tables" and "x \<notin> set ordered"
  shows "length ordered \<noteq> length all_tables"
proof
  assume "length ordered = length all_tables"
  with assms(1,2) have "card (set ordered) = card (set all_tables)"
    by (simp add: distinct_card)
  with assms(3) have "set ordered = set all_tables"
    by (intro card_subset_eq) simp_all
  with assms(4,5) show False by simp
qed

section \<open>Mutual references\<close>



section \<open>Completeness of a sorted output\<close>

text \<open>
  Claim C6. On the success path the ordered tables are exactly the names captured by the
  header pattern in the trimmed fragments of the input, each of them once, and the output
  is assembled from one statement for each of them.
\<close>

theorem sorted_output_has_each_recognized_table_once:
  assumes "set_order iter" and "sorted_tables alnum iter sql = Some ordered"
  shows "distinct ordered \<and>
         set ordered = {n. \<exists>f \<in> set (statements sql). search_create_table alnum f = Some n} \<and>
         order_sql_commands alnum iter sql =
           Inr (assemble (map (statement_of (fst (parse_tables alnum sql))) ordered))"
proof (cases "parse_tables alnum sql")
  case (Pair tm dp)
  note s = sorted_tables_Some [OF assms Pair]
  from s(2) parse_tables_key_set [OF Pair]
  have "set ordered = {n. \<exists>f \<in> set (statements sql). search_create_table alnum f = Some n}"
    by simp
  with s(1,4) Pair show ?thesis by simp
qed

theorem sorted_output_has_each_recognized_table_once_witness:
  "set_order id \<and> sorted_tables latin1_alnum id scenario_d = Some [str ''a'', str ''b'', str ''c''] \<and>
   distinct [str ''a'', str ''b'', str ''c''] \<and>
   set [str ''a'', str ''b'', str ''c''] =
     {n. \<exists>f \<in> set (statements scenario_d). search_create_table latin1_alnum f = Some n} \<and>
   order_sql_commands latin1_alnum id scenario_d =
     Inr (success_header @ [line_feed] @ str ''CREATE TABLE a (id INT);'' @ [line_feed, line_feed, line_feed] @
          str ''CREATE TABLE b (id INT, a_id INT REFERENCES a(id));'' @ [line_feed, line_feed, line_feed] @
          str ''CREATE TABLE c (id INT, b_id INT REFERENCES b(id));'')"
proof -
  have s: "sorted_tables latin1_alnum id scenario_d = Some [str ''a'', str ''b'', str ''c'']" by code_simp
  have o: "order_sql_commands latin1_alnum id scenario_d =
     Inr (success_header @ [line_feed] @ str ''CREATE TABLE a (id INT);'' @ [line_feed, line_feed, line_feed] @
          str ''CREATE TABLE b (id INT, a_id INT REFERENCES a(id));'' @ [line_feed, line_feed, line_feed] @
          str ''CREATE TABLE c (id INT, b_id INT REFERENCES b(id));'')"
    by code_simp
  from sorted_output_has_each_recognized_table_once [OF set_order_id s]
  have "distinct [str ''a'', str ''b'', str ''c'']" and
    "set [str ''a'', str ''b'', str ''c''] =
       {n. \<exists>f \<in> set (statements scenario_d). search_create_table latin1_alnum f = Some n}"
    by blast+
  with set_order_id s o show ?thesis by blast
qed

section \<open>References outside the batch\<close>

lemma unordered_table_gives_warning:
  assumes "set_order iter" and "parse_tables alnum sql = (tm, dp)"
    and "topological_sort iter (map fst tm) dp = Inr ordered"
    and "distinct ordered" and "set ordered \<subseteq> fst ` set tm"
    and "map_of dp t = Some ds" and "t \<notin> set ordered"
  shows "\<exists>missing. order_sql_commands alnum iter sql =
            Inr (warning_prefix @ join (str '', '') missing @ warning_suffix @ sql) \<and>
          t \<in> set missing"
proof -
  have c: "contains (str ''CREATE TABLE'') (upper sql)"
    using assms(2,6) by (rule recognized_contains)
  note keys = parse_tables_keys [OF assms(2)]
  have tk: "t \<in> set (map fst tm)"
    using map_of_Some_key [OF assms(6)] keys(1) by (metis set_map)
  define missing where "missing = iter (filter (\<lambda>t. t \<notin> set ordered) (map fst tm))"
  have "set missing = set (filter (\<lambda>t. t \<notin> set ordered) (map fst tm))"
    unfolding missing_def using assms(1) keys(2) by (intro set_order_set) simp_all
  with tk assms(7) have m: "t \<in> set missing" by simp
  then have ne: "missing \<noteq> []" by auto
  have "length ordered \<noteq> length (map fst tm)"
    using keys(2) assms(4) _ tk assms(7)
  proof (rule not_all_ordered)
    show "set ordered \<subseteq> set (map fst tm)" using assms(5) by simp
  qed
  then have len: "length ordered \<noteq> length tm" by simp
  from c assms(2,3) len ne
  have "order_sql_commands alnum iter sql =
          Inr (warning_prefix @ join (str '', '') missing @ warning_suffix @ sql)"
    by (simp add: order_sql_commands_def Let_def missing_def)
  with m show ?thesis by blast
qed

lemma scan_dependents_blocked:
  assumes "scan_dependents c ts (dp, ready) = (dp', ready')"
    and "c \<noteq> e" and "t \<notin> set ready" and "map_of dp t = Some ds" and "e \<in> set ds"
  shows "t \<notin> set ready' \<and> (\<exists>ds'. map_of dp' t = Some ds' \<and> e \<in> set ds')"
  using assms
proof (induction ts arbitrary: dp ready ds)
  case Nil
  then show ?case by simp
next
  case (Cons d ts)
  show ?case
  proof (cases "map_of dp d")
    case None
    with Cons.prems have "scan_dependents c ts (dp, ready) = (dp', ready')" by simp
    from Cons.IH [OF this Cons.prems(2-5)] show ?thesis .
  next
    case (Some dsd)
    show ?thesis
    proof (cases "c \<in> set dsd")
      case False
      with Some Cons.prems have "scan_dependents c ts (dp, ready) = (dp', ready')" by simp
      from Cons.IH [OF this Cons.prems(2-5)] show ?thesis .
    next
      case True
      define dp1 where "dp1 = AList.update d (remove1 c dsd) dp"
      define ready1 where
        "ready1 = (if remove1 c dsd = [] \<and> d \<notin> set ready then ready @ [d] else ready)"
      from Cons.prems(1) Some True
      have scan: "scan_dependents c ts (dp1, ready1) = (dp', ready')"
        by (simp add: Let_def dp1_def ready1_def)
      have e_kept: "e \<in> set (remove1 c ds)"
        using Cons.prems(2,5) by (simp add: in_set_remove1)
      show ?thesis
      proof (cases "d = t")
        case True
        with Some Cons.prems(4) have "dsd = ds" by simp
        with e_kept have "remove1 c dsd \<noteq> []" by auto
        then have r: "t \<notin> set ready1" using Cons.prems(3) by (simp add: ready1_def)
        have m: "map_of dp1 t = Some (remove1 c ds)"
          using True \<open>dsd = ds\<close> by (simp add: dp1_def update_conv')
        from Cons.IH [OF scan Cons.prems(2) r m e_kept] show ?thesis .
      next
        case False
        then have r: "t \<notin> set ready1" using Cons.prems(3) by (simp add: ready1_def)
        have m: "map_of dp1 t = Some ds"
          using False Cons.prems(4) by (simp add: dp1_def update_conv')
        from Cons.IH [OF scan Cons.prems(2) r m Cons.prems(5)] show ?thesis .
      qed
    qed
  qed
qed

lemma topo_loop_blocked:
  assumes "topo_inv all_tables dp0 ordered dp ready"
    and "e \<notin> set all_tables"
    and "t \<notin> set ordered" and "t \<notin> set ready"
    and "map_of dp t = Some ds" and "e \<in> set ds"
  shows "t \<notin> set (topo_loop iter all_tables ordered dp ready)"
  using assms
proof (induction iter all_tables ordered dp ready arbitrary: ds rule: topo_loop.induct)
  case (1 iter all_tables ordered dp)
  then show ?case by simp
next
  case (2 iter all_tables ordered dp c ready)
  define ordered' where "ordered' = (if c \<in> set ordered then ordered else ordered @ [c])"
  obtain dp' ready' where
    scan: "scan_dependents c (iter (filter (\<lambda>t. t \<notin> set ordered') all_tables)) (dp, ready) = (dp', ready')"
    by (cases "scan_dependents c (iter (filter (\<lambda>t. t \<notin> set ordered') all_tables)) (dp, ready)")
  from "2.prems"(1) have "c \<in> set all_tables" by (simp add: topo_inv_def)
  with "2.prems"(2) have ce: "c \<noteq> e" by auto
  from "2.prems"(4) have ct: "c \<noteq> t" and tr: "t \<notin> set ready" by auto
  have inv': "topo_inv all_tables dp0 ordered' dp ready"
    unfolding ordered'_def using "2.prems"(1) by (rule topo_inv_pop)
  have "c \<in> set ordered'" by (simp add: ordered'_def)
  with scan inv' have inv2: "topo_inv all_tables dp0 ordered' dp' ready'"
    by (blast intro: scan_dependents_inv)
  from ct "2.prems"(3) have to: "t \<notin> set ordered'" by (simp add: ordered'_def)
  from scan_dependents_blocked [OF scan ce tr "2.prems"(5,6)]
  obtain ds' where b: "t \<notin> set ready'" "map_of dp' t = Some ds'" "e \<in> set ds'" by blast
  from "2.IH" [OF ordered'_def scan [symmetric] inv2 "2.prems"(2) to b]
  have "t \<notin> set (topo_loop iter all_tables ordered' dp' ready')" .
  with scan show ?case by (simp add: ordered'_def [symmetric])
qed

text \<open>
  Claim C1 says that a reference to a table outside the batch never blocks ordering. The
  seeding comprehension treats it so, the loop does not: a name outside the batch is never
  the popped table, so it is never removed from a dependency list, and the loop queues a
  table only when its list is empty. Hence a table that references both a table of the
  batch and a table outside it is never emitted: the run returns the warning and names
  that table as unresolved, although no cycle exists.
\<close>

theorem mixed_references_never_emitted:
  assumes "set_order iter" and "parse_tables alnum sql = (tm, dp)"
    and "map_of dp t = Some ds"
    and "a \<in> set ds" and "a \<in> fst ` set tm"
    and "e \<in> set ds" and "e \<notin> fst ` set tm"
  shows "\<exists>missing. order_sql_commands alnum iter sql =
            Inr (warning_prefix @ join (str '', '') missing @ warning_suffix @ sql) \<and>
          t \<in> set missing"
proof -
  note keys = parse_tables_keys [OF assms(2)]
  define ready where "ready = filter (initially_ready (map fst tm) dp) (iter (map fst tm))"
  define ordered where "ordered = topo_loop iter (map fst tm) [] dp ready"
  have sort: "topological_sort iter (map fst tm) dp = Inr ordered"
    unfolding ordered_def ready_def using assms(1) keys(2,1) by (rule topological_sort_seed)
  have inv: "topo_inv (map fst tm) dp [] dp ready"
    unfolding ready_def using assms(1) keys(2,1) by (rule topo_inv_initial)
  have "\<not> initially_ready (map fst tm) dp t"
    using assms(3-5) by (auto simp: initially_ready_def)
  then have tr: "t \<notin> set ready" by (simp add: ready_def)
  have "t \<notin> set ordered"
    unfolding ordered_def using inv _ _ tr assms(3,6)
  proof (rule topo_loop_blocked)
    show "e \<notin> set (map fst tm)" using assms(7) by simp
    show "t \<notin> set []" by simp
  qed
  moreover from topo_loop_inv [OF inv, of iter]
  have "distinct ordered" and "set ordered \<subseteq> fst ` set tm"
    by (simp_all add: ordered_def)
  ultimately show ?thesis
    using assms(1,2) sort assms(3) by (intro unordered_table_gives_warning)
qed

theorem mixed_references_never_emitted_witness:
  "set_order id \<and>
   parse_tables latin1_alnum mixed_references =
     ([(str ''a'', str ''CREATE TABLE a (id INT);''),
       (str ''b'', str ''CREATE TABLE b (a_id INT REFERENCES a(id), e_id INT REFERENCES ext(id));'')],
      [(str ''a'', []), (str ''b'', [str ''a'', str ''ext''])]) \<and>
   order_sql_commands latin1_alnum id mixed_references =
     Inr (warning_prefix @ str ''b'' @ warning_suffix @ mixed_references) \<and>
   (\<exists>missing. order_sql_commands latin1_alnum id mixed_references =
       Inr (warning_prefix @ join (str '', '') missing @ warning_suffix @ mixed_references) \<and>
       (str ''b'') \<in> set missing) \<and>
   sorted_tables latin1_alnum id outside_reference_only = Some [str ''a'', str ''b'']"
proof -
  let ?tm = "[(str ''a'', str ''CREATE TABLE a (id INT);''),
       (str ''b'', str ''CREATE TABLE b (a_id INT REFERENCES a(id), e_id INT REFERENCES ext(id));'')]"
  let ?dp = "[(str ''a'', []), (str ''b'', [str ''a'', str ''ext''])] :: dependencies"
  have p: "parse_tables latin1_alnum mixed_references = (?tm, ?dp)" by code_simp
  have o: "order_sql_commands latin1_alnum id mixed_references =
     Inr (warning_prefix @ str ''b'' @ warning_suffix @ mixed_references)"
    by code_simp
  have s: "sorted_tables latin1_alnum id outside_reference_only = Some [str ''a'', str ''b'']" by code_simp
  have "\<exists>missing. order_sql_commands latin1_alnum id mixed_references =
       Inr (warning_prefix @ join (str '', '') missing @ warning_suffix @ mixed_references) \<and>
       (str ''b'') \<in> set missing"
    using set_order_id p
  proof (rule mixed_references_never_emitted)
    show "map_of ?dp (str ''b'') = Some [str ''a'', str ''ext'']" by simp
    show "(str ''a'') \<in> set [str ''a'', str ''ext'']" by simp
    show "(str ''a'') \<in> fst ` set ?tm" by simp
    show "(str ''ext'') \<in> set [str ''a'', str ''ext'']" by simp
    show "(str ''ext'') \<notin> fst ` set ?tm" by simp
  qed
  with set_order_id p o s show ?thesis by blast
qed

section \<open>Repeated references\<close>

lemma count_list_remove1:
  "count_list (remove1 c ds) a =
     (if c = a \<and> a \<in> set ds then count_list ds a - 1 else count_list ds a)"
  by (induction ds) auto

lemma count_list_pos_in_set: "1 \<le> count_list ds a \<Longrightarrow> a \<in> set ds"
  using count_list_0_iff [of ds a] by auto

lemma scan_dependents_ready:
  "scan_dependents c ts (dp, ready) = (dp', ready') \<Longrightarrow> distinct ready \<Longrightarrow>
   distinct ready' \<and> set ready' \<subseteq> set ready \<union> set ts"
proof (induction ts arbitrary: dp ready)
  case Nil
  then show ?case by simp
next
  case (Cons d ts)
  show ?case
  proof (cases "map_of dp d")
    case None
    with Cons.prems have "scan_dependents c ts (dp, ready) = (dp', ready')" by simp
    from Cons.IH [OF this Cons.prems(2)] show ?thesis by auto
  next
    case (Some dsd)
    show ?thesis
    proof (cases "c \<in> set dsd")
      case False
      with Some Cons.prems have "scan_dependents c ts (dp, ready) = (dp', ready')" by simp
      from Cons.IH [OF this Cons.prems(2)] show ?thesis by auto
    next
      case True
      define ready1 where
        "ready1 = (if remove1 c dsd = [] \<and> d \<notin> set ready then ready @ [d] else ready)"
      from Cons.prems(1) Some True
      have scan: "scan_dependents c ts (AList.update d (remove1 c dsd) dp, ready1) = (dp', ready')"
        by (simp add: Let_def ready1_def)
      have "distinct ready1" and "set ready1 \<subseteq> set ready \<union> {d}"
        using Cons.prems(2) by (auto simp: ready1_def)
      with Cons.IH [OF scan] show ?thesis by auto
    qed
  qed
qed

lemma scan_dependents_repeat:
  assumes "scan_dependents c ts (dp, ready) = (dp', ready')"
    and "distinct ts" and "t \<notin> set ready" and "map_of dp t = Some ds"
    and "1 \<le> count_list ds a"
    and "c = a \<and> t \<in> set ts \<longrightarrow> 2 \<le> count_list ds a"
  shows "t \<notin> set ready' \<and>
         (\<exists>ds'. map_of dp' t = Some ds' \<and> 1 \<le> count_list ds' a \<and>
                (c \<noteq> a \<longrightarrow> count_list ds' a = count_list ds a))"
  using assms
proof (induction ts arbitrary: dp ready ds)
  case Nil
  then show ?case by simp
next
  case (Cons d ts)
  have dts: "distinct ts" using Cons.prems(2) by simp
  have two: "c = a \<and> t \<in> set ts \<longrightarrow> 2 \<le> count_list ds a"
    using Cons.prems(6) by simp
  show ?case
  proof (cases "map_of dp d")
    case None
    with Cons.prems have "scan_dependents c ts (dp, ready) = (dp', ready')" by simp
    from Cons.IH [OF this dts Cons.prems(3-5) two] show ?thesis .
  next
    case (Some dsd)
    show ?thesis
    proof (cases "c \<in> set dsd")
      case False
      with Some Cons.prems have "scan_dependents c ts (dp, ready) = (dp', ready')" by simp
      from Cons.IH [OF this dts Cons.prems(3-5) two] show ?thesis .
    next
      case True
      define dp1 where "dp1 = AList.update d (remove1 c dsd) dp"
      define ready1 where
        "ready1 = (if remove1 c dsd = [] \<and> d \<notin> set ready then ready @ [d] else ready)"
      from Cons.prems(1) Some True
      have scan: "scan_dependents c ts (dp1, ready1) = (dp', ready')"
        by (simp add: Let_def dp1_def ready1_def)
      show ?thesis
      proof (cases "d = t")
        case True
        with Some Cons.prems(4) have same: "dsd = ds" by simp
        have ain: "a \<in> set ds" using Cons.prems(5) by (rule count_list_pos_in_set)
        have "c = a \<longrightarrow> 2 \<le> count_list ds a" using Cons.prems(6) True by simp
        with Cons.prems(5) ain have
          c1: "1 \<le> count_list (remove1 c ds) a" and
          c2: "c \<noteq> a \<longrightarrow> count_list (remove1 c ds) a = count_list ds a"
          by (auto simp: count_list_remove1)
        have "remove1 c ds \<noteq> []"
        proof
          assume e: "remove1 c ds = []"
          from c1 show False unfolding e by simp
        qed
        with same have r: "t \<notin> set ready1" using Cons.prems(3) by (simp add: ready1_def)
        have m: "map_of dp1 t = Some (remove1 c ds)"
          using True same by (simp add: dp1_def update_conv')
        from True Cons.prems(2) have "t \<notin> set ts" by simp
        then have "c = a \<and> t \<in> set ts \<longrightarrow> 2 \<le> count_list (remove1 c ds) a" by simp
        from Cons.IH [OF scan dts r m c1 this] c2 show ?thesis by auto
      next
        case False
        then have r: "t \<notin> set ready1" using Cons.prems(3) by (simp add: ready1_def)
        have m: "map_of dp1 t = Some ds"
          using False Cons.prems(4) by (simp add: dp1_def update_conv')
        from Cons.IH [OF scan dts r m Cons.prems(5) two] show ?thesis .
      qed
    qed
  qed
qed

lemma topo_loop_repeat:
  assumes "set_order iter" and "distinct all_tables"
    and "topo_inv all_tables dp0 ordered dp ready"
    and "distinct ready" and "set ready \<inter> set ordered = {}"
    and "t \<notin> set ordered" and "t \<notin> set ready"
    and "map_of dp t = Some ds"
    and "1 \<le> count_list ds a"
    and "a \<notin> set ordered \<longrightarrow> 2 \<le> count_list ds a"
  shows "t \<notin> set (topo_loop iter all_tables ordered dp ready)"
  using assms
proof (induction iter all_tables ordered dp ready arbitrary: ds rule: topo_loop.induct)
  case (1 iter all_tables ordered dp)
  then show ?case by simp
next
  case (2 iter all_tables ordered dp c ready)
  from "2.prems"(5) have co: "c \<notin> set ordered" by auto
  define ordered' where "ordered' = (if c \<in> set ordered then ordered else ordered @ [c])"
  with co have o': "ordered' = ordered @ [c]" by simp
  define ts where "ts = iter (filter (\<lambda>t. t \<notin> set ordered') all_tables)"
  obtain dp' ready' where scan: "scan_dependents c ts (dp, ready) = (dp', ready')"
    by (cases "scan_dependents c ts (dp, ready)")
  have dts: "distinct ts" and sts: "set ts = set (filter (\<lambda>t. t \<notin> set ordered') all_tables)"
    unfolding ts_def using "2.prems"(1,2)
    by (simp_all add: set_order_distinct set_order_set)
  from "2.prems"(4,7) have dr: "distinct ready" and cr: "c \<notin> set ready"
    and ct: "c \<noteq> t" and tr: "t \<notin> set ready"
    by auto
  have inv': "topo_inv all_tables dp0 ordered' dp ready"
    unfolding ordered'_def using "2.prems"(3) by (rule topo_inv_pop)
  have "c \<in> set ordered'" by (simp add: o')
  with scan inv' have inv2: "topo_inv all_tables dp0 ordered' dp' ready'"
    by (blast intro: scan_dependents_inv)
  from scan_dependents_ready [OF scan dr]
  have dr': "distinct ready'" and sr': "set ready' \<subseteq> set ready \<union> set ts" by simp_all
  have disj: "set ready' \<inter> set ordered' = {}"
    using sr' sts cr "2.prems"(5) by (auto simp: o')
  have to: "t \<notin> set ordered'" using ct "2.prems"(6) by (simp add: o')
  have "c = a \<and> t \<in> set ts \<longrightarrow> 2 \<le> count_list ds a"
    using co "2.prems"(10) by auto
  from scan_dependents_repeat [OF scan dts tr "2.prems"(8,9) this]
  obtain ds' where b: "t \<notin> set ready'" "map_of dp' t = Some ds'" "1 \<le> count_list ds' a"
    "c \<noteq> a \<longrightarrow> count_list ds' a = count_list ds a"
    by blast
  have two: "a \<notin> set ordered' \<longrightarrow> 2 \<le> count_list ds' a"
    using b(4) "2.prems"(10) by (auto simp: o')
  from "2.IH" [OF ordered'_def _ "2.prems"(1,2) inv2 dr' disj to b(1,2,3) two] scan
  have "t \<notin> set (topo_loop iter all_tables ordered' dp' ready')"
    by (simp add: ts_def)
  with scan show ?case by (simp add: ordered'_def [symmetric] ts_def)
qed

text \<open>
  Claim C2 says that the referenced names form a set, so that a table referencing the same
  table of the batch twice is still ordered after it. The code keeps a list with the
  repetitions, and \<^verbatim>\<open>list.remove\<close> deletes one occurrence each time the referenced table
  is popped, which happens once: a table whose list holds a name of the batch twice is
  never emitted, and the run returns the warning naming it as unresolved.
\<close>

theorem repeated_reference_never_emitted:
  assumes "set_order iter" and "parse_tables alnum sql = (tm, dp)"
    and "map_of dp t = Some ds"
    and "2 \<le> count_list ds a" and "a \<in> fst ` set tm"
  shows "\<exists>missing. order_sql_commands alnum iter sql =
            Inr (warning_prefix @ join (str '', '') missing @ warning_suffix @ sql) \<and>
          t \<in> set missing"
proof -
  note keys = parse_tables_keys [OF assms(2)]
  define ready where "ready = filter (initially_ready (map fst tm) dp) (iter (map fst tm))"
  define ordered where "ordered = topo_loop iter (map fst tm) [] dp ready"
  have sort: "topological_sort iter (map fst tm) dp = Inr ordered"
    unfolding ordered_def ready_def using assms(1) keys(2,1) by (rule topological_sort_seed)
  have inv: "topo_inv (map fst tm) dp [] dp ready"
    unfolding ready_def using assms(1) keys(2,1) by (rule topo_inv_initial)
  have one: "1 \<le> count_list ds a" using assms(4) by simp
  then have "a \<in> set ds" by (rule count_list_pos_in_set)
  with assms(3,5) have "\<not> initially_ready (map fst tm) dp t"
    by (auto simp: initially_ready_def)
  then have tr: "t \<notin> set ready" by (simp add: ready_def)
  have dr: "distinct ready"
    unfolding ready_def using set_order_distinct [OF assms(1) keys(2)] by simp
  have "t \<notin> set ordered"
    unfolding ordered_def using assms(1) keys(2) inv dr _ _ tr assms(3) one
  proof (rule topo_loop_repeat)
    show "set ready \<inter> set [] = {}" by simp
    show "t \<notin> set []" by simp
    show "a \<notin> set [] \<longrightarrow> 2 \<le> count_list ds a" using assms(4) by simp
  qed
  moreover from topo_loop_inv [OF inv, of iter]
  have "distinct ordered" and "set ordered \<subseteq> fst ` set tm"
    by (simp_all add: ordered_def)
  ultimately show ?thesis
    using assms(1,2) sort assms(3) by (intro unordered_table_gives_warning)
qed

theorem repeated_reference_never_emitted_witness:
  "set_order id \<and>
   parse_tables latin1_alnum repeated_reference =
     ([(str ''a'', str ''CREATE TABLE a (id INT);''),
       (str ''b'', str ''CREATE TABLE b (x INT REFERENCES a(id), y INT REFERENCES a(id));'')],
      [(str ''a'', []), (str ''b'', [str ''a'', str ''a''])]) \<and>
   order_sql_commands latin1_alnum id repeated_reference =
     Inr (warning_prefix @ str ''b'' @ warning_suffix @ repeated_reference) \<and>
   (\<exists>missing. order_sql_commands latin1_alnum id repeated_reference =
       Inr (warning_prefix @ join (str '', '') missing @ warning_suffix @ repeated_reference) \<and>
       (str ''b'') \<in> set missing)"
proof -
  let ?tm = "[(str ''a'', str ''CREATE TABLE a (id INT);''),
       (str ''b'', str ''CREATE TABLE b (x INT REFERENCES a(id), y INT REFERENCES a(id));'')]"
  let ?dp = "[(str ''a'', []), (str ''b'', [str ''a'', str ''a''])] :: dependencies"
  have p: "parse_tables latin1_alnum repeated_reference = (?tm, ?dp)" by code_simp
  have o: "order_sql_commands latin1_alnum id repeated_reference =
     Inr (warning_prefix @ str ''b'' @ warning_suffix @ repeated_reference)"
    by code_simp
  have "\<exists>missing. order_sql_commands latin1_alnum id repeated_reference =
       Inr (warning_prefix @ join (str '', '') missing @ warning_suffix @ repeated_reference) \<and>
       (str ''b'') \<in> set missing"
    using set_order_id p
  proof (rule repeated_reference_never_emitted)
    show "map_of ?dp (str ''b'') = Some [str ''a'', str ''a'']" by simp
    show "2 \<le> count_list [str ''a'', str ''a''] (str ''a'')" by simp
    show "(str ''a'') \<in> fst ` set ?tm" by simp
  qed
  with set_order_id p o show ?thesis by blast
qed

section \<open>What the result string is made of\<close>

lemma join_Cons_concat: "join sep (x # xs) = x @ concat (map (\<lambda>p. sep @ p) xs)"
  by (induction xs arbitrary: x) simp_all

lemma replace_semicolons_append:
  "replace_semicolons (a @ b) = replace_semicolons a @ replace_semicolons b"
  by (simp add: replace_semicolons_def)

lemma replace_semicolons_concat:
  "replace_semicolons (concat xs) = concat (map replace_semicolons xs)"
  by (induction xs) (simp_all add: replace_semicolons_append, simp add: replace_semicolons_def)

lemma replace_semicolons_id: "semicolon \<notin> set s \<Longrightarrow> replace_semicolons s = s"
  by (induction s) (auto simp: replace_semicolons_def)

lemma line_feed_not_semicolon: "line_feed \<noteq> semicolon"
  by (simp add: line_feed_def semicolon_def)

lemma replace_semicolons_statement:
  assumes "semicolon \<notin> set f"
  shows "replace_semicolons (line_feed # f @ [semicolon]) =
           line_feed # f @ [semicolon, line_feed, line_feed]"
proof -
  have "replace_semicolons (line_feed # f @ [semicolon]) =
      replace_semicolons [line_feed] @ replace_semicolons f @ replace_semicolons [semicolon]"
    using replace_semicolons_append [of "[line_feed]" "f @ [semicolon]"]
    by (simp add: replace_semicolons_append)
  also have "replace_semicolons [line_feed] = [line_feed]"
    using line_feed_not_semicolon by (simp add: replace_semicolons_def)
  also have "replace_semicolons f = f" using assms by (rule replace_semicolons_id)
  also have "replace_semicolons [semicolon] = [semicolon, line_feed, line_feed]"
    by (simp add: replace_semicolons_def)
  finally show ?thesis by simp
qed

lemma success_header_no_semicolon: "semicolon \<notin> set success_header"
  by code_simp

lemma assemble_statements:
  assumes "\<forall>f \<in> set fs. semicolon \<notin> set f"
  shows "assemble (map (\<lambda>f. f @ [semicolon]) fs) =
     strip (success_header @
            concat (map (\<lambda>f. line_feed # f @ [semicolon, line_feed, line_feed]) fs))"
proof -
  have "join [line_feed] (success_header # map (\<lambda>f. f @ [semicolon]) fs) =
      success_header @ concat (map (\<lambda>f. line_feed # f @ [semicolon]) fs)"
    by (simp add: join_Cons_concat comp_def)
  moreover have "map replace_semicolons (map (\<lambda>f. line_feed # f @ [semicolon]) fs) =
      map (\<lambda>f. line_feed # f @ [semicolon, line_feed, line_feed]) fs"
    using assms by (simp add: replace_semicolons_statement)
  ultimately have "replace_semicolons (join [line_feed] (success_header # map (\<lambda>f. f @ [semicolon]) fs)) =
      success_header @ concat (map (\<lambda>f. line_feed # f @ [semicolon, line_feed, line_feed]) fs)"
    using replace_semicolons_id [OF success_header_no_semicolon]
    by (simp only: replace_semicolons_append replace_semicolons_concat)
  then show ?thesis by (simp only: assemble_def)
qed

lemma split_on_no_sep: "g \<in> set (split_on sep s) \<Longrightarrow> sep \<notin> set g"
proof (induction s arbitrary: g)
  case Nil
  then show ?case by simp
next
  case (Cons c cs)
  show ?case
  proof (cases "c = sep")
    case True
    with Cons show ?thesis by auto
  next
    case False
    show ?thesis
    proof (cases "split_on sep cs")
      case Nil
      with False Cons.prems show ?thesis by simp
    next
      case (Cons v vs)
      with Cons.IH have "sep \<notin> set v" and "\<forall>w \<in> set vs. sep \<notin> set w" by simp_all
      with False Cons Cons.prems show ?thesis by auto
    qed
  qed
qed

lemma strip_subset: "set (strip s) \<subseteq> set s"
proof -
  have "set (strip s) \<subseteq> set (rev (dropWhile isspace s))"
    unfolding strip_def by (auto dest: set_dropWhileD)
  also have "\<dots> \<subseteq> set s" by (auto dest: set_dropWhileD)
  finally show ?thesis .
qed

lemma statements_no_semicolon:
  assumes "f \<in> set (statements sql)"
  shows "semicolon \<notin> set f"
proof -
  from assms obtain g where "g \<in> set (split_on semicolon sql)" and "f = strip g"
    by (auto simp: statements_def)
  with split_on_no_sep [of g semicolon sql] strip_subset [of g] show ?thesis by auto
qed

text \<open>
  Claim C9, amended. On the success path the result string is the announcement line
  followed, for each ordered table in turn, by one fragment whose header names that
  table, ended by its semicolon and a blank line: every emitted statement is a fragment
  that matches the header pattern, and a fragment that does not match is never emitted as
  a statement.
\<close>

theorem emitted_statements_are_matching_fragments:
  assumes "set_order iter" and "sorted_tables alnum iter sql = Some ordered"
  shows "\<exists>fs. map (search_create_table alnum) fs = map Some ordered \<and>
           set fs \<subseteq> set (statements sql) \<and>
           order_sql_commands alnum iter sql =
             Inr (strip (success_header @
                         concat (map (\<lambda>f. line_feed # f @ [semicolon, line_feed, line_feed]) fs)))"
proof (cases "parse_tables alnum sql")
  case (Pair tm dp)
  note s = sorted_tables_Some [OF assms Pair]
  define fs where "fs = map (\<lambda>t. butlast (statement_of tm t)) ordered"
  have frag: "butlast (statement_of tm t) \<in> set (statements sql) \<and>
      search_create_table alnum (butlast (statement_of tm t)) = Some t \<and>
      statement_of tm t = butlast (statement_of tm t) @ [semicolon]"
    if "t \<in> set ordered" for t
  proof -
    from that s(2) have "t \<in> fst ` set tm" by simp
    then obtain st where st: "map_of tm t = Some st"
      using map_of_eq_None_iff [of tm t] by auto
    from parse_tables_values [OF Pair st] obtain f where
      "f \<in> set (statements sql)" "search_create_table alnum f = Some t" "st = f @ [semicolon]"
      by blast
    with st show ?thesis by (simp add: statement_of_def)
  qed
  have 1: "map (search_create_table alnum) fs = map Some ordered"
    using frag by (simp add: fs_def)
  have 2: "set fs \<subseteq> set (statements sql)"
    using frag by (auto simp: fs_def)
  have 3: "map (statement_of tm) ordered = map (\<lambda>f. f @ [semicolon]) fs"
    using frag by (simp add: fs_def)
  have "\<forall>f \<in> set fs. semicolon \<notin> set f"
    using 2 statements_no_semicolon by blast
  from assemble_statements [OF this] s(4) 3
  have "order_sql_commands alnum iter sql =
      Inr (strip (success_header @
                  concat (map (\<lambda>f. line_feed # f @ [semicolon, line_feed, line_feed]) fs)))"
    by simp
  with 1 2 show ?thesis by blast
qed

theorem emitted_statements_are_matching_fragments_witness:
  "set_order id \<and> sorted_tables latin1_alnum id lossy_batch = Some [str ''a''] \<and>
   map (search_create_table latin1_alnum) (statements lossy_batch) = [None, Some (str ''a''), None] \<and>
   order_sql_commands latin1_alnum id lossy_batch =
     Inr (success_header @ [line_feed] @ str ''CREATE TABLE a (id INT);'') \<and>
   (\<exists>fs. map (search_create_table latin1_alnum) fs = map Some [str ''a''] \<and>
      set fs \<subseteq> set (statements lossy_batch) \<and>
      order_sql_commands latin1_alnum id lossy_batch =
        Inr (strip (success_header @
                    concat (map (\<lambda>f. line_feed # f @ [semicolon, line_feed, line_feed]) fs))))"
proof -
  have s: "sorted_tables latin1_alnum id lossy_batch = Some [str ''a'']" by code_simp
  have m: "map (search_create_table latin1_alnum) (statements lossy_batch) = [None, Some (str ''a''), None]"
    by code_simp
  have o: "order_sql_commands latin1_alnum id lossy_batch =
      Inr (success_header @ [line_feed] @ str ''CREATE TABLE a (id INT);'')"
    by code_simp
  from emitted_statements_are_matching_fragments [OF set_order_id s] set_order_id s m o
  show ?thesis by blast
qed

text \<open>
  The claim as written fails: the text of a fragment that does not match can still stand
  in the result string, inside a fragment that matches. Here the first fragment ends with
  a comment that reads like the second one; the second is not emitted, yet its text
  with the semicolon is part of the output.
\<close>

theorem unmatched_fragment_in_result_string:
  "statements commented_batch =
     [str ''CREATE TABLE a (id INT) -- INSERT INTO a VALUES (1)'', str ''INSERT INTO a VALUES (1)''] \<and>
   map (search_create_table latin1_alnum) (statements commented_batch) = [Some (str ''a''), None] \<and>
   sorted_tables latin1_alnum id commented_batch = Some [str ''a''] \<and>
   order_sql_commands latin1_alnum id commented_batch =
     Inr (success_header @ [line_feed] @
          str ''CREATE TABLE a (id INT) -- INSERT INTO a VALUES (1);'') \<and>
   contains (str ''INSERT INTO a VALUES (1)'' @ [semicolon])
     (success_header @ [line_feed] @ str ''CREATE TABLE a (id INT) -- INSERT INTO a VALUES (1);'')"
proof -
  have 1: "statements commented_batch =
     [str ''CREATE TABLE a (id INT) -- INSERT INTO a VALUES (1)'', str ''INSERT INTO a VALUES (1)'']"
    by code_simp
  have 2: "map (search_create_table latin1_alnum) (statements commented_batch) = [Some (str ''a''), None]"
    by code_simp
  have 3: "sorted_tables latin1_alnum id commented_batch = Some [str ''a'']" by code_simp
  have 4: "order_sql_commands latin1_alnum id commented_batch =
     Inr (success_header @ [line_feed] @
          str ''CREATE TABLE a (id INT) -- INSERT INTO a VALUES (1);'')"
    by code_simp
  have 5: "contains (str ''INSERT INTO a VALUES (1)'' @ [semicolon])
     (success_header @ [line_feed] @ str ''CREATE TABLE a (id INT) -- INSERT INTO a VALUES (1);'')"
    by code_simp
  from 1 2 3 4 5 show ?thesis by blast
qed

section \<open>The order of set iteration\<close>

lemma scan_dependents_appends:
  "scan_dependents c ts (dp, ready) = (dp', ready') \<Longrightarrow> \<exists>pushed. ready' = ready @ pushed"
proof (induction ts arbitrary: dp ready)
  case Nil
  then show ?case by simp
next
  case (Cons d ts)
  show ?case
  proof (cases "map_of dp d")
    case None
    with Cons.prems have "scan_dependents c ts (dp, ready) = (dp', ready')" by simp
    then show ?thesis by (rule Cons.IH)
  next
    case (Some dsd)
    show ?thesis
    proof (cases "c \<in> set dsd")
      case False
      with Some Cons.prems have "scan_dependents c ts (dp, ready) = (dp', ready')" by simp
      then show ?thesis by (rule Cons.IH)
    next
      case True
      define ready1 where
        "ready1 = (if remove1 c dsd = [] \<and> d \<notin> set ready then ready @ [d] else ready)"
      from Cons.prems(1) Some True
      have "scan_dependents c ts (AList.update d (remove1 c dsd) dp, ready1) = (dp', ready')"
        by (simp add: Let_def ready1_def)
      from Cons.IH [OF this] obtain pushed where "ready' = ready1 @ pushed" by blast
      then have "ready' = ready @ (if remove1 c dsd = [] \<and> d \<notin> set ready then [d] else []) @ pushed"
        by (simp add: ready1_def)
      then show ?thesis by blast
    qed
  qed
qed

lemma topo_loop_prefix:
  assumes "set_order iter" and "distinct all_tables"
    and "distinct ready" and "set ready \<inter> set ordered = {}"
  shows "\<exists>rest. topo_loop iter all_tables ordered dp ready = ordered @ ready @ rest"
  using assms
proof (induction iter all_tables ordered dp ready rule: topo_loop.induct)
  case (1 iter all_tables ordered dp)
  then show ?case by simp
next
  case (2 iter all_tables ordered dp c ready)
  from "2.prems"(4) have co: "c \<notin> set ordered" by auto
  define ordered' where "ordered' = (if c \<in> set ordered then ordered else ordered @ [c])"
  with co have o': "ordered' = ordered @ [c]" by simp
  define ts where "ts = iter (filter (\<lambda>t. t \<notin> set ordered') all_tables)"
  obtain dp' ready' where scan: "scan_dependents c ts (dp, ready) = (dp', ready')"
    by (cases "scan_dependents c ts (dp, ready)")
  have sts: "set ts = set (filter (\<lambda>t. t \<notin> set ordered') all_tables)"
    unfolding ts_def using "2.prems"(1,2) by (simp add: set_order_set)
  from "2.prems"(3) have dr: "distinct ready" and cr: "c \<notin> set ready" by auto
  from scan_dependents_ready [OF scan dr]
  have dr': "distinct ready'" and sr': "set ready' \<subseteq> set ready \<union> set ts" by simp_all
  have disj: "set ready' \<inter> set ordered' = {}"
    using sr' sts cr "2.prems"(4) by (auto simp: o')
  from scan_dependents_appends [OF scan] obtain pushed where p: "ready' = ready @ pushed" by blast
  from "2.IH" [OF ordered'_def _ "2.prems"(1,2) dr' disj] scan
  obtain rest where "topo_loop iter all_tables ordered' dp' ready' = ordered' @ ready' @ rest"
    by (auto simp: ts_def)
  with scan p have "topo_loop iter all_tables ordered dp (c # ready) =
      ordered @ (c # ready) @ (pushed @ rest)"
    by (simp add: ordered'_def [symmetric] ts_def o')
  then show ?case by blast
qed

lemma topological_sort_prefix:
  assumes "set_order iter" and "distinct all_tables" and "map fst dp = all_tables"
    and "topological_sort iter all_tables dp = Inr ordered"
  shows "\<exists>rest. ordered = filter (initially_ready all_tables dp) (iter all_tables) @ rest"
proof -
  have "distinct (filter (initially_ready all_tables dp) (iter all_tables))"
    using set_order_distinct [OF assms(1,2)] by simp
  from topo_loop_prefix [OF assms(1,2) this, of "[]" dp] topological_sort_seed [OF assms(1-3)] assms(4)
  show ?thesis by simp
qed

lemma scan_dependents_Cons:
  "scan_dependents c (d # ts) (dp, ready) = scan_dependents c ts (scan_step c d (dp, ready))"
  by (simp add: scan_step_def Let_def split: option.splits)

lemma scan_step_other:
  assumes "scan_step c d (dp, ready) = (dp1, ready1)" and "d \<noteq> t"
  shows "map_of dp1 t = map_of dp t" and "t \<in> set ready1 \<longleftrightarrow> t \<in> set ready"
  using assms by (auto simp: scan_step_def update_conv' split: option.splits if_splits)

lemma scan_untouched:
  "scan_dependents c ts (dp, ready) = (dp', ready') \<Longrightarrow> t \<notin> set ts \<Longrightarrow>
   map_of dp' t = map_of dp t \<and> (t \<in> set ready' \<longleftrightarrow> t \<in> set ready)"
proof (induction ts arbitrary: dp ready)
  case Nil
  then show ?case by simp
next
  case (Cons d ts)
  obtain dp1 ready1 where step: "scan_step c d (dp, ready) = (dp1, ready1)"
    by (cases "scan_step c d (dp, ready)")
  from Cons.prems(2) have dt: "d \<noteq> t" and tts: "t \<notin> set ts" by auto
  from Cons.prems(1) step have "scan_dependents c ts (dp1, ready1) = (dp', ready')"
    by (simp only: scan_dependents_Cons)
  from Cons.IH [OF this tts] scan_step_other [OF step dt] show ?case by simp
qed

lemma pending_cong:
  "map_of dp' t = map_of dp t \<Longrightarrow> pending dp0 dp' ordered t = pending dp0 dp ordered t"
  by (simp add: pending_def)

lemma scan_step_self:
  assumes step: "scan_step c t (dp, ready) = (dp1, ready1)"
    and tr: "t \<notin> set ready" and co: "c \<notin> set ordered"
    and pend: "pending dp0 dp ordered t"
  shows "(t \<in> set ready1 \<and> covered dp0 (ordered @ [c]) t) \<or>
         (t \<notin> set ready1 \<and> pending dp0 dp1 (ordered @ [c]) t)"
proof -
  from pend obtain ds0 ds where
    ds0: "map_of dp0 t = Some ds0" and ds: "map_of dp t = Some ds" and ne: "ds \<noteq> []" and
    cnt: "\<And>x. count_list ds x = count_list ds0 x - (if x \<in> set ordered then 1 else 0)"
    by (auto simp: pending_def)
  show ?thesis
  proof (cases "c \<in> set ds")
    case False
    with step ds have same: "dp1 = dp" "ready1 = ready" by (simp_all add: scan_step_def)
    from False have "count_list ds c = 0" by simp
    with cnt [of c] co have "count_list ds0 c = 0" by simp
    with cnt have "\<And>x. count_list ds x = count_list ds0 x - (if x \<in> set (ordered @ [c]) then 1 else 0)"
      by auto
    with ds0 ds ne have "pending dp0 dp (ordered @ [c]) t"
      unfolding pending_def by blast
    with same tr show ?thesis by simp
  next
    case True
    define ds1 where "ds1 = remove1 c ds"
    from step ds True have dp1: "dp1 = AList.update t ds1 dp"
      and ready1: "ready1 = (if ds1 = [] \<and> t \<notin> set ready then ready @ [t] else ready)"
      by (simp_all add: scan_step_def ds1_def)
    have cnt1: "count_list ds1 x = count_list ds0 x - (if x \<in> set (ordered @ [c]) then 1 else 0)" for x
      using cnt [of x] co True by (auto simp: ds1_def count_list_remove1)
    have m1: "map_of dp1 t = Some ds1" by (simp add: dp1 update_conv')
    show ?thesis
    proof (cases "ds1 = []")
      case True
      with cnt1 have "\<And>x. count_list ds0 x \<le> (if x \<in> set (ordered @ [c]) then 1 else 0)"
        by (metis count_list.simps(1) diff_is_0_eq)
      with ds0 have "covered dp0 (ordered @ [c]) t" unfolding covered_def by blast
      with True tr ready1 show ?thesis by simp
    next
      case False
      with ds0 m1 cnt1 have "pending dp0 dp1 (ordered @ [c]) t"
        unfolding pending_def by blast
      with False tr ready1 show ?thesis by simp
    qed
  qed
qed

lemma scan_pending:
  assumes "scan_dependents c ts (dp, ready) = (dp', ready')"
    and "distinct ts" and "t \<in> set ts" and "t \<notin> set ready" and "c \<notin> set ordered"
    and "pending dp0 dp ordered t"
  shows "(t \<in> set ready' \<and> covered dp0 (ordered @ [c]) t) \<or>
         (t \<notin> set ready' \<and> pending dp0 dp' (ordered @ [c]) t)"
  using assms
proof (induction ts arbitrary: dp ready)
  case Nil
  then show ?case by simp
next
  case (Cons d ts)
  obtain dp1 ready1 where step: "scan_step c d (dp, ready) = (dp1, ready1)"
    by (cases "scan_step c d (dp, ready)")
  from Cons.prems(1) step have rest: "scan_dependents c ts (dp1, ready1) = (dp', ready')"
    by (simp only: scan_dependents_Cons)
  from Cons.prems(2) have dts: "distinct ts" and dn: "d \<notin> set ts" by simp_all
  show ?case
  proof (cases "d = t")
    case True
    with dn have tts: "t \<notin> set ts" by simp
    note u = scan_untouched [OF rest tts]
    from step True have "scan_step c t (dp, ready) = (dp1, ready1)" by simp
    from u have u1: "map_of dp' t = map_of dp1 t"
      and u2: "(t \<in> set ready') = (t \<in> set ready1)" by simp_all
    note pc = pending_cong [OF u1]
    from scan_step_self [OF \<open>scan_step c t (dp, ready) = (dp1, ready1)\<close> Cons.prems(4,5,6)]
    show ?thesis unfolding u2 pc .
  next
    case False
    with Cons.prems(3) have tts: "t \<in> set ts" by simp
    note o = scan_step_other [OF step False]
    from o(2) Cons.prems(4) have tr1: "t \<notin> set ready1" by simp
    from Cons.prems(6) have "pending dp0 dp1 ordered t"
      unfolding pending_cong [OF o(1)] .
    from Cons.IH [OF rest dts tts tr1 Cons.prems(5) this] show ?thesis .
  qed
qed

lemma count_le_1_distinct: "(\<And>x. count_list xs x \<le> 1) \<Longrightarrow> distinct xs"
proof (induction xs)
  case Nil
  then show ?case by simp
next
  case (Cons a xs)
  from Cons.prems [of a] have "count_list xs a = 0" by simp
  then have "a \<notin> set xs" by (simp add: count_list_0_iff)
  moreover have "count_list xs x \<le> 1" for x
    using Cons.prems [of x] by (simp split: if_splits)
  then have "distinct xs" by (rule Cons.IH)
  ultimately show ?case by simp
qed

lemma distinct_count_le_1: "distinct xs \<Longrightarrow> count_list xs x \<le> 1"
  by (induction xs) auto

lemma covered_emits:
  assumes "covered dp0 ordered t" and "\<forall>d \<in> set ordered. emits all_tables dp0 d"
  shows "emits all_tables dp0 t"
proof -
  from assms(1) obtain ds0 where ds0: "map_of dp0 t = Some ds0"
    and cnt: "\<And>x. count_list ds0 x \<le> (if x \<in> set ordered then 1 else 0)"
    by (auto simp: covered_def)
  have "count_list ds0 x \<le> 1" for x using cnt [of x] by (simp split: if_splits)
  then have "distinct ds0" by (rule count_le_1_distinct)
  moreover have "set ds0 \<subseteq> set ordered"
  proof
    fix x assume "x \<in> set ds0"
    then have "count_list ds0 x \<noteq> 0" by (simp add: count_list_0_iff)
    with cnt [of x] show "x \<in> set ordered" by (simp split: if_splits)
  qed
  with assms(2) have "\<forall>d \<in> set ds0. emits all_tables dp0 d" by blast
  ultimately show ?thesis using ds0 by (intro emits.deps)
qed

lemma topo_exact_step:
  assumes so: "set_order iter" and da: "distinct all_tables"
    and ex: "topo_exact all_tables dp0 ordered dp (c # ready)"
    and scan: "scan_dependents c (iter (filter (\<lambda>t. t \<notin> set (ordered @ [c])) all_tables))
                 (dp, ready) = (dp', ready')"
  shows "topo_exact all_tables dp0 (ordered @ [c]) dp' ready'"
proof -
  define ts where "ts = iter (filter (\<lambda>t. t \<notin> set (ordered @ [c])) all_tables)"
  from da have df: "distinct (filter (\<lambda>t. t \<notin> set (ordered @ [c])) all_tables)" by simp
  have sts: "set ts = {t \<in> set all_tables. t \<notin> set ordered \<and> t \<noteq> c}"
    unfolding ts_def set_order_set [OF so df] by auto
  have dts: "distinct ts" unfolding ts_def using so df by (rule set_order_distinct)
  from scan have scan': "scan_dependents c ts (dp, ready) = (dp', ready')" by (simp only: ts_def)
  from ex have dr: "distinct ready" and cr: "c \<notin> set ready" and co: "c \<notin> set ordered"
    and ro: "set ready \<inter> set ordered = {}"
    and em: "\<And>t. t \<in> set ordered \<or> t = c \<or> t \<in> set ready \<Longrightarrow> emits all_tables dp0 t"
    and pe: "\<And>t. t \<in> set all_tables \<Longrightarrow>
               t \<in> set ordered \<or> t = c \<or> t \<in> set ready \<or> pending dp0 dp ordered t"
    by (auto simp: topo_exact_def)
  from scan_dependents_ready [OF scan' dr]
  have dr': "distinct ready'" and sr': "set ready' \<subseteq> set ready \<union> set ts" by simp_all
  from scan_dependents_appends [OF scan'] obtain pushed where p: "ready' = ready @ pushed" by blast
  have disj: "set ready' \<inter> set (ordered @ [c]) = {}"
    using sr' sts cr ro by auto
  have emo: "\<forall>d \<in> set (ordered @ [c]). emits all_tables dp0 d" using em by auto
  have split: "t \<in> set ready' \<and> covered dp0 (ordered @ [c]) t \<or>
               t \<notin> set ready' \<and> pending dp0 dp' (ordered @ [c]) t"
    if t: "t \<in> set all_tables" "t \<notin> set ordered" "t \<noteq> c" "t \<notin> set ready" for t
  proof -
    from pe [OF t(1)] t have pend: "pending dp0 dp ordered t" by simp
    from t sts have tts: "t \<in> set ts" by simp
    from scan' dts tts t(4) co pend show ?thesis by (rule scan_pending)
  qed
  have em': "emits all_tables dp0 t" if t: "t \<in> set (ordered @ [c]) \<union> set ready'" for t
  proof (cases "t \<in> set ordered \<or> t = c \<or> t \<in> set ready")
    case True
    then show ?thesis by (rule em)
  next
    case False
    with t have tr': "t \<in> set ready'" by auto
    with sr' False have "t \<in> set ts" by auto
    with sts have "t \<in> set all_tables" by simp
    from split [OF this] False tr' have "covered dp0 (ordered @ [c]) t" by blast
    then show ?thesis using emo by (rule covered_emits)
  qed
  have pe': "t \<in> set (ordered @ [c]) \<or> t \<in> set ready' \<or> pending dp0 dp' (ordered @ [c]) t"
    if t: "t \<in> set all_tables" for t
  proof (cases "t \<in> set ordered \<or> t = c \<or> t \<in> set ready")
    case True
    with p show ?thesis by auto
  next
    case False
    with split [OF t] show ?thesis by blast
  qed
  from dr' disj em' pe' show ?thesis unfolding topo_exact_def by blast
qed

lemma pending_stuck:
  assumes "pending dp0 dp ordered t"
  shows "stuck dp0 ordered t"
proof -
  from assms obtain ds0 ds where
    ds0: "map_of dp0 t = Some ds0" and ne: "ds \<noteq> []" and
    cnt: "\<And>x. count_list ds x = count_list ds0 x - (if x \<in> set ordered then 1 else 0)"
    by (auto simp: pending_def)
  from ne obtain x where "x \<in> set ds" by (cases ds) auto
  then have "0 < count_list ds x" using count_list_0_iff [of ds x] by auto
  with cnt [of x] have "(if x \<in> set ordered then 1 else 0) < count_list ds0 x" by simp
  with ds0 show ?thesis unfolding stuck_def by blast
qed

lemma topo_loop_exact:
  assumes "set_order iter" and "distinct all_tables"
    and "topo_exact all_tables dp0 ordered dp ready"
  shows "(\<forall>t \<in> set (topo_loop iter all_tables ordered dp ready). emits all_tables dp0 t) \<and>
         (\<forall>t \<in> set all_tables. t \<in> set (topo_loop iter all_tables ordered dp ready) \<or>
              stuck dp0 (topo_loop iter all_tables ordered dp ready) t)"
  using assms
proof (induction iter all_tables ordered dp ready rule: topo_loop.induct)
  case (1 iter all_tables ordered dp)
  then show ?case by (auto simp: topo_exact_def pending_stuck)
next
  case (2 iter all_tables ordered dp c ready)
  from "2.prems"(3) have co: "c \<notin> set ordered" by (auto simp: topo_exact_def)
  define ordered' where "ordered' = (if c \<in> set ordered then ordered else ordered @ [c])"
  with co have o': "ordered' = ordered @ [c]" by simp
  define ts where "ts = iter (filter (\<lambda>t. t \<notin> set ordered') all_tables)"
  obtain dp' ready' where scan: "scan_dependents c ts (dp, ready) = (dp', ready')"
    by (cases "scan_dependents c ts (dp, ready)")
  from scan have "scan_dependents c (iter (filter (\<lambda>t. t \<notin> set (ordered @ [c])) all_tables))
                 (dp, ready) = (dp', ready')" by (simp only: ts_def o')
  from topo_exact_step [OF "2.prems"(1,2,3) this]
  have ex': "topo_exact all_tables dp0 ordered' dp' ready'" by (simp only: o')
  have step: "topo_loop iter all_tables ordered dp (c # ready) =
      topo_loop iter all_tables ordered' dp' ready'"
    using scan by (simp add: ordered'_def [symmetric] ts_def [symmetric])
  from "2.IH" [OF ordered'_def _ "2.prems"(1,2)] scan ex'
  show ?case unfolding step by (simp add: ts_def)
qed

lemma emits_key:
  assumes "map fst dp = all_tables" and "emits all_tables dp t"
  shows "t \<in> set all_tables"
  using assms(2)
proof cases
  case seed
  then show ?thesis by simp
next
  case (deps ds)
  from map_of_Some_key [OF deps(1)] have "t \<in> set (map fst dp)" by simp
  with assms(1) show ?thesis by simp
qed

lemma emits_in_result:
  assumes all: "\<forall>t \<in> set all_tables. t \<in> set r \<or> stuck dp r t"
    and seeds: "\<forall>t \<in> set all_tables. initially_ready all_tables dp t \<longrightarrow> t \<in> set r"
    and keys: "map fst dp = all_tables"
    and e: "emits all_tables dp t"
  shows "t \<in> set r"
  using e
proof (induction rule: emits.induct)
  case (seed t)
  with seeds show ?case by blast
next
  case (deps t ds)
  from map_of_Some_key [OF deps(1)] have "t \<in> set (map fst dp)" by simp
  with keys have tk: "t \<in> set all_tables" by simp
  show ?case
  proof (rule ccontr)
    assume "t \<notin> set r"
    with all tk have "stuck dp r t" by blast
    with deps(1) obtain x where x: "(if x \<in> set r then 1 else 0) < count_list ds x"
      by (auto simp: stuck_def)
    from distinct_count_le_1 [OF deps(2), of x] x have xr: "x \<notin> set r" and "0 < count_list ds x"
      by (auto split: if_splits)
    then have "x \<in> set ds" using count_list_0_iff [of ds x] by auto
    with deps(3) xr show False by blast
  qed
qed

lemma topo_exact_initial:
  assumes "set_order iter" and "distinct all_tables" and "map fst dp = all_tables"
  shows "topo_exact all_tables dp [] dp (filter (initially_ready all_tables dp) (iter all_tables))"
proof -
  note s = set_order_set [OF assms(1,2)]
  have d: "distinct (filter (initially_ready all_tables dp) (iter all_tables))"
    using set_order_distinct [OF assms(1,2)] by simp
  have e: "emits all_tables dp t"
    if "t \<in> set (filter (initially_ready all_tables dp) (iter all_tables))" for t
    using that s by (auto intro: emits.seed)
  have p: "t \<in> set (filter (initially_ready all_tables dp) (iter all_tables)) \<or> pending dp dp [] t"
    if t: "t \<in> set all_tables" for t
  proof (cases "initially_ready all_tables dp t")
    case True
    with t s show ?thesis by simp
  next
    case False
    from t assms(3) have "t \<in> fst ` set dp" by auto
    then obtain ds where ds: "map_of dp t = Some ds"
      using map_of_eq_None_iff [of dp t] by (cases "map_of dp t") auto
    with False have "ds \<noteq> []" by (auto simp: initially_ready_def)
    with ds have "pending dp dp [] t" by (simp add: pending_def)
    then show ?thesis by simp
  qed
  from d e p show ?thesis unfolding topo_exact_def by auto
qed

lemma topological_sort_emits:
  assumes "set_order iter" and "distinct all_tables" and "map fst dp = all_tables"
    and "topological_sort iter all_tables dp = Inr r"
  shows "set r = {t. emits all_tables dp t}"
proof -
  define seeds where "seeds = filter (initially_ready all_tables dp) (iter all_tables)"
  from topological_sort_seed [OF assms(1-3)] assms(4)
  have r: "r = topo_loop iter all_tables [] dp seeds" by (simp add: seeds_def)
  from topo_exact_initial [OF assms(1-3)]
  have ex: "topo_exact all_tables dp [] dp seeds" by (simp only: seeds_def)
  from topo_loop_exact [OF assms(1,2) ex]
  have em: "\<forall>t \<in> set r. emits all_tables dp t"
    and st: "\<forall>t \<in> set all_tables. t \<in> set r \<or> stuck dp r t"
    unfolding r by blast+
  from topological_sort_prefix [OF assms] obtain rest where "r = seeds @ rest"
    by (auto simp: seeds_def)
  moreover have "set seeds = {t \<in> set all_tables. initially_ready all_tables dp t}"
    unfolding seeds_def using set_order_set [OF assms(1,2)] by auto
  ultimately have sd: "\<forall>t \<in> set all_tables. initially_ready all_tables dp t \<longrightarrow> t \<in> set r"
    by auto
  have "t \<in> set r" if "emits all_tables dp t" for t
    using st sd assms(3) that by (rule emits_in_result)
  with em show ?thesis by blast
qed

lemma order_sql_commands_outcome:
  assumes so: "set_order iter" and p: "parse_tables alnum sql = (tm, dp)"
    and ts: "topological_sort iter (map fst tm) dp = Inr ordered"
    and d: "distinct ordered" and sub: "set ordered \<subseteq> fst ` set tm"
    and ls: "lookup_statements tm ordered = Inr (map (statement_of tm) ordered)"
  shows "order_sql_commands alnum iter sql =
           (if \<not> contains (str ''CREATE TABLE'') (upper sql) then Inr sql
            else if set ordered = fst ` set tm
            then Inr (assemble (map (statement_of tm) ordered))
            else Inr (warning_prefix @
                      join (str '', '') (iter (filter (\<lambda>t. t \<notin> set ordered) (map fst tm))) @
                      warning_suffix @ sql))"
proof -
  note keys = parse_tables_keys [OF p]
  from sub have sub': "set ordered \<subseteq> set (map fst tm)" by simp
  define missing where "missing = iter (filter (\<lambda>t. t \<notin> set ordered) (map fst tm))"
  have sm: "set missing = set (filter (\<lambda>t. t \<notin> set ordered) (map fst tm))"
    unfolding missing_def using so keys(2) by (intro set_order_set) simp_all
  have cond: "(length ordered \<noteq> length tm \<and> missing \<noteq> []) \<longleftrightarrow> set ordered \<noteq> fst ` set tm"
  proof
    assume a: "length ordered \<noteq> length tm \<and> missing \<noteq> []"
    show "set ordered \<noteq> fst ` set tm"
    proof
      assume "set ordered = fst ` set tm"
      then have "set (filter (\<lambda>t. t \<notin> set ordered) (map fst tm)) = {}" by auto
      with sm have "set missing = {}" by (simp only:)
      then have "missing = []" by simp
      with a show False by simp
    qed
  next
    assume "set ordered \<noteq> fst ` set tm"
    with sub obtain x where x: "x \<in> set (map fst tm)" "x \<notin> set ordered" by auto
    from keys(2) d sub' x have "length ordered \<noteq> length (map fst tm)" by (rule not_all_ordered)
    moreover from x sm have "x \<in> set missing" by simp
    then have "missing \<noteq> []" by auto
    ultimately show "length ordered \<noteq> length tm \<and> missing \<noteq> []" by simp
  qed
  have "order_sql_commands alnum iter sql =
           (if \<not> contains (str ''CREATE TABLE'') (upper sql) then Inr sql
            else if length ordered \<noteq> length tm \<and> missing \<noteq> []
            then Inr (warning_prefix @ join (str '', '') missing @ warning_suffix @ sql)
            else Inr (assemble (map (statement_of tm) ordered)))"
    using p ts ls by (simp add: order_sql_commands_def Let_def missing_def)
  then show ?thesis unfolding cond by (simp add: missing_def)
qed

text \<open>
  Claim C8, amended. The queue is seeded by iterating over the set \<^verbatim>\<open>all_tables\<close>, so
  the tables that are ready at the start head \<^verbatim>\<open>ordered_tables\<close> in the order in which
  that set is iterated, which need not be the insertion order. Two runs on the same input
  order the same tables, each once, whatever the two iteration orders are: the tables
  that \<open>emits\<close> describes. They therefore take the same path (pass-through, success or
  warning), emit the same statements on the success path and name the same tables in the
  warning, and differ only in the order of the statements or of the names.
\<close>

theorem runs_differ_in_order_only:
  assumes "set_order iter" and "set_order iter'"
    and "parse_tables alnum sql = (tm, dp)"
  shows "\<exists>ordered ordered' rest.
           topological_sort iter (map fst tm) dp = Inr ordered \<and>
           topological_sort iter' (map fst tm) dp = Inr ordered' \<and>
           ordered = filter (initially_ready (map fst tm) dp) (iter (map fst tm)) @ rest \<and>
           distinct ordered \<and> distinct ordered' \<and> set ordered' = set ordered \<and>
           set ordered = {t. emits (map fst tm) dp t} \<and>
           (if \<not> contains (str ''CREATE TABLE'') (upper sql)
            then order_sql_commands alnum iter sql = Inr sql \<and>
                 order_sql_commands alnum iter' sql = Inr sql
            else if set ordered = fst ` set tm
            then order_sql_commands alnum iter sql =
                   Inr (assemble (map (statement_of tm) ordered)) \<and>
                 order_sql_commands alnum iter' sql =
                   Inr (assemble (map (statement_of tm) ordered'))
            else order_sql_commands alnum iter sql =
                   Inr (warning_prefix @
                        join (str '', '') (iter (filter (\<lambda>t. t \<notin> set ordered) (map fst tm))) @
                        warning_suffix @ sql) \<and>
                 order_sql_commands alnum iter' sql =
                   Inr (warning_prefix @
                        join (str '', '') (iter' (filter (\<lambda>t. t \<notin> set ordered) (map fst tm))) @
                        warning_suffix @ sql))"
proof -
  note keys = parse_tables_keys [OF assms(3)]
  from sorted_run [OF assms(1,3)] obtain ordered where
    o: "topological_sort iter (map fst tm) dp = Inr ordered" "distinct ordered"
      "set ordered \<subseteq> fst ` set tm"
      "lookup_statements tm ordered = Inr (map (statement_of tm) ordered)"
    by blast
  from sorted_run [OF assms(2,3)] obtain ordered' where
    o': "topological_sort iter' (map fst tm) dp = Inr ordered'" "distinct ordered'"
      "set ordered' \<subseteq> fst ` set tm"
      "lookup_statements tm ordered' = Inr (map (statement_of tm) ordered')"
    by blast
  from topological_sort_prefix [OF assms(1) keys(2,1) o(1)] obtain rest where
    r: "ordered = filter (initially_ready (map fst tm) dp) (iter (map fst tm)) @ rest"
    by blast
  note em = topological_sort_emits [OF assms(1) keys(2,1) o(1)]
  have e: "set ordered' = set ordered"
    unfolding em topological_sort_emits [OF assms(2) keys(2,1) o'(1)] ..
  note out = order_sql_commands_outcome [OF assms(1,3) o]
  note out' = order_sql_commands_outcome [OF assms(2,3) o', unfolded e]
  have "if \<not> contains (str ''CREATE TABLE'') (upper sql)
            then order_sql_commands alnum iter sql = Inr sql \<and>
                 order_sql_commands alnum iter' sql = Inr sql
            else if set ordered = fst ` set tm
            then order_sql_commands alnum iter sql =
                   Inr (assemble (map (statement_of tm) ordered)) \<and>
                 order_sql_commands alnum iter' sql =
                   Inr (assemble (map (statement_of tm) ordered'))
            else order_sql_commands alnum iter sql =
                   Inr (warning_prefix @
                        join (str '', '') (iter (filter (\<lambda>t. t \<notin> set ordered) (map fst tm))) @
                        warning_suffix @ sql) \<and>
                 order_sql_commands alnum iter' sql =
                   Inr (warning_prefix @
                        join (str '', '') (iter' (filter (\<lambda>t. t \<notin> set ordered) (map fst tm))) @
                        warning_suffix @ sql)"
    using out out' by (simp split: if_splits)
  with o(1,2) o'(1,2) r e em show ?thesis by blast
qed

theorem runs_differ_in_order_only_witness:
  "set_order rev \<and> set_order id \<and>
   parse_tables latin1_alnum three_tables =
     ([(str ''a'', str ''CREATE TABLE a (id INT);''),
       (str ''b'', str ''CREATE TABLE b (id INT);''),
       (str ''c'', str ''CREATE TABLE c (a_id INT REFERENCES a(id));'')],
      [(str ''a'', []), (str ''b'', []), (str ''c'', [str ''a''])]) \<and>
   filter (initially_ready [str ''a'', str ''b'', str ''c'']
             [(str ''a'', []), (str ''b'', []), (str ''c'', [str ''a''])])
     (rev [str ''a'', str ''b'', str ''c'']) = [str ''b'', str ''a''] \<and>
   topological_sort rev [str ''a'', str ''b'', str ''c'']
     [(str ''a'', []), (str ''b'', []), (str ''c'', [str ''a''])] =
     Inr ([str ''b'', str ''a''] @ [str ''c'']) \<and>
   topological_sort id [str ''a'', str ''b'', str ''c'']
     [(str ''a'', []), (str ''b'', []), (str ''c'', [str ''a''])] =
     Inr [str ''a'', str ''b'', str ''c''] \<and>
   set [str ''b'', str ''a'', str ''c''] =
     {t. emits [str ''a'', str ''b'', str ''c'']
           [(str ''a'', []), (str ''b'', []), (str ''c'', [str ''a''])] t} \<and>
   order_sql_commands latin1_alnum rev three_tables =
     Inr (success_header @ [line_feed] @
          str ''CREATE TABLE b (id INT);'' @ [line_feed, line_feed, line_feed] @
          str ''CREATE TABLE a (id INT);'' @ [line_feed, line_feed, line_feed] @
          str ''CREATE TABLE c (a_id INT REFERENCES a(id));'') \<and>
   order_sql_commands latin1_alnum id three_tables =
     Inr (success_header @ [line_feed] @
          str ''CREATE TABLE a (id INT);'' @ [line_feed, line_feed, line_feed] @
          str ''CREATE TABLE b (id INT);'' @ [line_feed, line_feed, line_feed] @
          str ''CREATE TABLE c (a_id INT REFERENCES a(id));'')"
proof -
  let ?tm = "[(str ''a'', str ''CREATE TABLE a (id INT);''),
       (str ''b'', str ''CREATE TABLE b (id INT);''),
       (str ''c'', str ''CREATE TABLE c (a_id INT REFERENCES a(id));'')]"
  let ?dp = "[(str ''a'', []), (str ''b'', []), (str ''c'', [str ''a''])] :: dependencies"
  have p: "parse_tables latin1_alnum three_tables = (?tm, ?dp)" by code_simp
  have k: "map fst ?tm = [str ''a'', str ''b'', str ''c'']" by simp
  have f: "filter (initially_ready [str ''a'', str ''b'', str ''c''] ?dp)
     (rev [str ''a'', str ''b'', str ''c'']) = [str ''b'', str ''a'']"
    by code_simp
  have t: "topological_sort rev [str ''a'', str ''b'', str ''c''] ?dp =
      Inr [str ''b'', str ''a'', str ''c'']"
    by code_simp
  have t': "topological_sort id [str ''a'', str ''b'', str ''c''] ?dp =
      Inr [str ''a'', str ''b'', str ''c'']"
    by code_simp
  have c: "contains (str ''CREATE TABLE'') (upper three_tables)" by code_simp
  have a: "assemble (map (statement_of ?tm) [str ''b'', str ''a'', str ''c'']) =
      success_header @ [line_feed] @
          str ''CREATE TABLE b (id INT);'' @ [line_feed, line_feed, line_feed] @
          str ''CREATE TABLE a (id INT);'' @ [line_feed, line_feed, line_feed] @
          str ''CREATE TABLE c (a_id INT REFERENCES a(id));''"
    by code_simp
  have a': "assemble (map (statement_of ?tm) [str ''a'', str ''b'', str ''c'']) =
      success_header @ [line_feed] @
          str ''CREATE TABLE a (id INT);'' @ [line_feed, line_feed, line_feed] @
          str ''CREATE TABLE b (id INT);'' @ [line_feed, line_feed, line_feed] @
          str ''CREATE TABLE c (a_id INT REFERENCES a(id));''"
    by code_simp
  from runs_differ_in_order_only [OF set_order_rev set_order_id p]
  obtain ordered ordered' rest where
    1: "topological_sort rev (map fst ?tm) ?dp = Inr ordered"
    and 2: "topological_sort id (map fst ?tm) ?dp = Inr ordered'"
    and 3: "ordered = filter (initially_ready (map fst ?tm) ?dp) (rev (map fst ?tm)) @ rest"
    and 7: "set ordered = {t. emits (map fst ?tm) ?dp t}"
    and 4: "if \<not> contains (str ''CREATE TABLE'') (upper three_tables)
            then order_sql_commands latin1_alnum rev three_tables = Inr three_tables \<and>
                 order_sql_commands latin1_alnum id three_tables = Inr three_tables
            else if set ordered = fst ` set ?tm
            then order_sql_commands latin1_alnum rev three_tables =
                   Inr (assemble (map (statement_of ?tm) ordered)) \<and>
                 order_sql_commands latin1_alnum id three_tables =
                   Inr (assemble (map (statement_of ?tm) ordered'))
            else order_sql_commands latin1_alnum rev three_tables =
                   Inr (warning_prefix @
                        join (str '', '') (rev (filter (\<lambda>t. t \<notin> set ordered) (map fst ?tm))) @
                        warning_suffix @ three_tables) \<and>
                 order_sql_commands latin1_alnum id three_tables =
                   Inr (warning_prefix @
                        join (str '', '') (id (filter (\<lambda>t. t \<notin> set ordered) (map fst ?tm))) @
                        warning_suffix @ three_tables)"
    by blast
  from 1 t have o: "ordered = [str ''b'', str ''a'', str ''c'']" by (simp only: k sum.inject)
  from 2 t' have o': "ordered' = [str ''a'', str ''b'', str ''c'']" by (simp only: k sum.inject)
  have s: "set [str ''b'', str ''a'', str ''c''] = fst ` set ?tm" by auto
  from 4 c have "order_sql_commands latin1_alnum rev three_tables =
                   Inr (assemble (map (statement_of ?tm) [str ''b'', str ''a'', str ''c''])) \<and>
                 order_sql_commands latin1_alnum id three_tables =
                   Inr (assemble (map (statement_of ?tm) [str ''a'', str ''b'', str ''c'']))"
    unfolding o o' by (simp only: s if_True not_True_eq_False if_False)
  then have 5: "order_sql_commands latin1_alnum rev three_tables =
     Inr (success_header @ [line_feed] @
          str ''CREATE TABLE b (id INT);'' @ [line_feed, line_feed, line_feed] @
          str ''CREATE TABLE a (id INT);'' @ [line_feed, line_feed, line_feed] @
          str ''CREATE TABLE c (a_id INT REFERENCES a(id));'')"
    and 6: "order_sql_commands latin1_alnum id three_tables =
     Inr (success_header @ [line_feed] @
          str ''CREATE TABLE a (id INT);'' @ [line_feed, line_feed, line_feed] @
          str ''CREATE TABLE b (id INT);'' @ [line_feed, line_feed, line_feed] @
          str ''CREATE TABLE c (a_id INT REFERENCES a(id));'')"
    by (simp_all only: a a')
  from t have t2: "topological_sort rev [str ''a'', str ''b'', str ''c''] ?dp =
     Inr ([str ''b'', str ''a''] @ [str ''c''])" by simp
  from 7 have 8: "set [str ''b'', str ''a'', str ''c''] =
     {t. emits [str ''a'', str ''b'', str ''c''] ?dp t}"
    by (simp only: o k)
  from set_order_rev set_order_id p f t2 t' 8 5 6 show ?thesis by blast
qed

text \<open>
  The claim as written fails: with two independent tables, iterating the set in insertion
  order and in the reverse order seeds the queue differently and gives two outputs with
  the statements in different orders.
\<close>

theorem output_depends_on_set_iteration:
  "set_order id \<and> set_order rev \<and>
   ready_to_process [str ''a'', str ''b''] (snd (parse_tables latin1_alnum two_tables)) (rev [str ''a'', str ''b'']) = Inr [str ''b'', str ''a''] \<and>
   order_sql_commands latin1_alnum id two_tables =
     Inr (success_header @ [line_feed] @ str ''CREATE TABLE a (id INT);'' @ [line_feed, line_feed, line_feed] @
          str ''CREATE TABLE b (id INT);'') \<and>
   order_sql_commands latin1_alnum rev two_tables =
     Inr (success_header @ [line_feed] @ str ''CREATE TABLE b (id INT);'' @ [line_feed, line_feed, line_feed] @
          str ''CREATE TABLE a (id INT);'') \<and>
   order_sql_commands latin1_alnum id two_tables \<noteq> order_sql_commands latin1_alnum rev two_tables"
proof -
  have 1: "ready_to_process [str ''a'', str ''b''] (snd (parse_tables latin1_alnum two_tables)) (rev [str ''a'', str ''b'']) = Inr [str ''b'', str ''a'']"
    by code_simp
  have 2: "order_sql_commands latin1_alnum id two_tables =
     Inr (success_header @ [line_feed] @ str ''CREATE TABLE a (id INT);'' @ [line_feed, line_feed, line_feed] @
          str ''CREATE TABLE b (id INT);'')"
    by code_simp
  have 3: "order_sql_commands latin1_alnum rev two_tables =
     Inr (success_header @ [line_feed] @ str ''CREATE TABLE b (id INT);'' @ [line_feed, line_feed, line_feed] @
          str ''CREATE TABLE a (id INT);'')"
    by code_simp
  have 4: "order_sql_commands latin1_alnum id two_tables \<noteq> order_sql_commands latin1_alnum rev two_tables"
    by code_simp
  from set_order_id set_order_rev 1 2 3 4 show ?thesis by blast
qed

section \<open>Text outside ASCII\<close>

text \<open>
  The patterns and \<^verbatim>\<open>str.strip\<close> on code points above U+007F: a table name with a
  letter of Latin-1, a no-break space after \<^verbatim>\<open>CREATE TABLE\<close>, the long s in
  \<^verbatim>\<open>REFERENCES\<close>, and white space that is not ASCII.
\<close>

lemma header_with_accented_name:
  "search_create_table latin1_alnum (str ''CREATE TABLE caf'' @ [latin1 (CHR 0xE9)] @ str '' (id INT)'') =
     Some (str ''caf'' @ [latin1 (CHR 0xE9)])"
  by code_simp

lemma header_after_no_break_space:
  "search_create_table latin1_alnum (str ''CREATE TABLE'' @ [latin1 (CHR 0xA0)] @ str ''t (id INT)'') =
     Some (str ''t'')"
  by code_simp

lemma reference_with_long_s:
  "findall_references latin1_alnum (str ''a INT REFERENCE'' @ [bmp (CHR 0x01) (CHR 0x7F)] @ str '' b(id)'') =
     [str ''b'']"
  by code_simp

lemma reference_to_accented_name:
  "findall_references latin1_alnum (str ''u INT REFERENCES '' @ [latin1 (CHR 0xFC)] @ str ''bung(id)'') =
     [latin1 (CHR 0xFC) # str ''bung'']"
  by code_simp

lemma strip_white_space_outside_ascii:
  "strip ([latin1 (CHR 0xA0)] @ str '' x '' @ [bmp (CHR 0x30) (CHR 0x00)]) = str ''x''"
  by code_simp

lemma run_with_accented_name:
  "order_sql_commands latin1_alnum id (str ''CREATE TABLE caf'' @ [latin1 (CHR 0xE9)] @ str '' (id INT);'') =
     Inr (success_header @ [line_feed] @ str ''CREATE TABLE caf'' @ [latin1 (CHR 0xE9)] @ str '' (id INT);'')"
  by code_simp

lemma run_with_reference_to_accented_name:
  "order_sql_commands latin1_alnum id
     (str ''CREATE TABLE b (a_id INT REFERENCES a(id), u_id INT REFERENCES '' @ [latin1 (CHR 0xFC)] @
      str ''bung(id)); CREATE TABLE a (id INT);'') =
     Inr (warning_prefix @ str ''b'' @ warning_suffix @
          str ''CREATE TABLE b (a_id INT REFERENCES a(id), u_id INT REFERENCES '' @ [latin1 (CHR 0xFC)] @
          str ''bung(id)); CREATE TABLE a (id INT);'')"
  by code_simp

end
